theory Spec2Isabelle
  imports Complex_Main "HOL-Library.Sublist" "HOL-Library.Char_ord"
begin

section \<open>Byte strings and the functions of Go's strings package that event.go calls\<close>

text \<open>
  A Go string is a sequence of bytes; it is modelled as a \<^typ>\<open>string\<close>. The tab and the
  newline of the Go literals are written \<open>TAB\<close> and \<open>NL\<close>, a double quote \<open>DQ\<close>.
\<close>

abbreviation TAB :: char where "TAB \<equiv> CHR 0x09"
abbreviation NL :: char where "NL \<equiv> CHR 0x0A"
abbreviation DQ :: char where "DQ \<equiv> CHR 0x22"

text \<open>\<^verbatim>\<open>len(s) >= len(prefix) && s[:len(prefix)] == prefix\<close>\<close>

definition HasPrefix :: "string \<Rightarrow> string \<Rightarrow> bool" where
  "HasPrefix s p = (length p \<le> length s \<and> take (length p) s = p)"

text \<open>\<^verbatim>\<open>len(s) >= len(suffix) && s[len(s)-len(suffix):] == suffix\<close>\<close>

definition HasSuffix :: "string \<Rightarrow> string \<Rightarrow> bool" where
  "HasSuffix s p = (length p \<le> length s \<and> drop (length s - length p) s = p)"

text \<open>
  \<open>Index s sub\<close> is the position of the first instance of \<open>sub\<close> in \<open>s\<close>; Go's \<open>-1\<close> is
  \<open>None\<close>.
\<close>

fun Index :: "string \<Rightarrow> string \<Rightarrow> nat option" where
  "Index [] sub = (if sub = [] then Some 0 else None)"
| "Index (c # cs) sub =
     (if HasPrefix (c # cs) sub then Some 0 else map_option Suc (Index cs sub))"

text \<open>\<^verbatim>\<open>Index(s, substr) >= 0\<close>\<close>

definition Contains :: "string \<Rightarrow> string \<Rightarrow> bool" where
  "Contains s sub = (Index s sub \<noteq> None)"

section \<open>Events\<close>

text \<open>
  \<^verbatim>\<open>type Action string\<close>: an action is a string, and the eight constants are eight of its
  values.
\<close>

type_synonym Action = string

definition ActionPass :: Action where "ActionPass = ''pass''"
definition ActionFail :: Action where "ActionFail = ''fail''"
definition ActionOutput :: Action where "ActionOutput = ''output''"

text \<open>
  A \<open>float64\<close> is modelled by a rational number. The decoder rounds the number it reads
  to the nearest double before it stores it (\<open>round64\<close> below); \<open>ParseFloat\<close> is modelled
  by the decimal that it reads, which stands for the double nearest to it. The type of
  \<open>time.Time\<close> values is the parameter \<open>'t\<close>: event.go stores a time and never looks at it.
\<close>

type_synonym float64 = rat

record 't Event =
  Action :: Action
  Output :: string
  Time :: 't
  Package :: string
  Test :: string
  Elapsed :: float64

section \<open>The classifier predicates\<close>

definition updates :: "string list" where
  "updates = [''=== RUN   '', ''=== PAUSE '', ''=== CONT  '']"

text \<open>The loop of \<open>Discard\<close>: it returns true at the first marker that is a prefix.\<close>

fun update_loop :: "string \<Rightarrow> string list \<Rightarrow> bool" where
  "update_loop out [] = False"
| "update_loop out (u # us) = (if HasPrefix out u then True else update_loop out us)"

definition Discard :: "'t Event \<Rightarrow> bool" where
  "Discard e =
     (if update_loop (Output e) updates then True
      else Action e = ActionOutput \<and> Test e = '''')"

definition LastLine :: "'t Event \<Rightarrow> bool" where
  "LastLine e =
     (Test e = '''' \<and> Output e = '''' \<and> (Action e = ActionPass \<or> Action e = ActionFail))"

definition NoTestFiles :: "'t Event \<Rightarrow> bool" where
  "NoTestFiles e =
     (HasPrefix (Output e) (''?   '' @ [TAB]) \<and>
      HasSuffix (Output e) (''[no test files]'' @ [NL]))"

definition NoTestsToRun :: "'t Event \<Rightarrow> bool" where
  "NoTestsToRun e =
     (HasPrefix (Output e) (''ok  '' @ [TAB]) \<and>
      HasSuffix (Output e) (''[no tests to run]'' @ [NL]))"

definition NoTestsWarn :: "'t Event \<Rightarrow> bool" where
  "NoTestsWarn e =
     (Test e \<noteq> '''' \<and> Output e = ''testing: warning: no tests to run'' @ [NL])"

definition IsCached :: "'t Event \<Rightarrow> bool" where
  "IsCached e =
     (HasPrefix (Output e) (''ok  '' @ [TAB]) \<and> Contains (Output e) (TAB # ''(cached)''))"

definition NestedTest :: "'t Event \<Rightarrow> bool" where
  "NestedTest e =
     (Test e \<noteq> '''' \<and> (HasPrefix (Output e) ''PASS'' \<or> HasPrefix (Output e) ''FAIL''))"

definition IsRace :: "'t Event \<Rightarrow> bool" where
  "IsRace e = HasPrefix (Output e) ''WARNING: DATA RACE''"

definition IsPanic :: "'t Event \<Rightarrow> bool" where
  "IsPanic e =
     (HasPrefix (Output e) ''panic: '' \<or>
      (Contains (Output e) ''runtime error:'' \<and> \<not> Contains (Output e) ''as expected''))"

section \<open>Count, Replace and Split\<close>

text \<open>
  The three functions follow the Go library's loops. \<open>Count\<close> counts the instances of \<open>sub\<close>
  that do not overlap (one more than the length for an empty \<open>sub\<close>); its recursion ends
  because an instance that was found lies inside the string.
\<close>

lemma Index_bound: "Index s sub = Some j \<Longrightarrow> j + length sub \<le> length s"
proof (induction s arbitrary: j)
  case Nil
  then show ?case by (simp split: if_splits)
next
  case (Cons c cs)
  show ?case
  proof (cases "HasPrefix (c # cs) sub")
    case True
    with Cons.prems show ?thesis by (simp add: HasPrefix_def)
  next
    case False
    with Cons.prems obtain k where "Index cs sub = Some k" "j = Suc k"
      by auto
    with Cons.IH show ?thesis by fastforce
  qed
qed

function Count :: "string \<Rightarrow> string \<Rightarrow> nat" where
  "Count s sub =
     (if sub = [] then length s + 1
      else case Index s sub of
             None \<Rightarrow> 0
           | Some j \<Rightarrow> Suc (Count (drop (j + length sub) s) sub))"
  by pat_completeness auto
termination
proof (relation "measure (\<lambda>(s, sub). length s)")
  show "wf (measure (\<lambda>(s, sub). length s))" by simp
next
  fix s sub :: string and j
  assume "sub \<noteq> []" "Index s sub = Some j"
  then have "j + length sub \<le> length s" "0 < length sub"
    by (auto dest: Index_bound)
  then have "length (drop (j + length sub) s) < length s"
    by (simp del: length_greater_0_conv)
  then show "((drop (j + length sub) s, sub), (s, sub)) \<in> measure (\<lambda>(s, sub). length s)"
    by simp
qed

declare Count.simps [simp del]

text \<open>
  \<open>Replace s old new n\<close> replaces the first \<open>n\<close> instances of \<open>old\<close> (all of them when
  \<open>n < 0\<close>). The loop runs once for each replacement; for an empty \<open>old\<close> it puts \<open>new\<close>
  in front of the string and after each of its bytes (Go steps by UTF-8 sequences, which
  are the bytes of an ASCII string).
\<close>

fun insert_loop :: "nat \<Rightarrow> string \<Rightarrow> string \<Rightarrow> string" where
  "insert_loop 0 new s = s"
| "insert_loop (Suc k) new [] = new"
| "insert_loop (Suc k) new (c # cs) = new @ c # insert_loop k new cs"

fun replace_loop :: "nat \<Rightarrow> string \<Rightarrow> string \<Rightarrow> string \<Rightarrow> string" where
  "replace_loop 0 s old new = s"
| "replace_loop (Suc k) s old new =
     (case Index s old of
        None \<Rightarrow> s
      | Some j \<Rightarrow> take j s @ new @ replace_loop k (drop (j + length old) s) old new)"

definition Replace :: "string \<Rightarrow> string \<Rightarrow> string \<Rightarrow> int \<Rightarrow> string" where
  "Replace s old new n =
     (if old = new \<or> n = 0 then s
      else let m = Count s old in
        if m = 0 then s
        else let k = (if n < 0 \<or> int m < n then m else nat n) in
          if old = [] then insert_loop k new s else replace_loop k s old new)"

text \<open>
  \<open>Split s sep\<close> is \<open>genSplit(s, sep, 0, -1)\<close>: it cuts \<open>s\<close> at every instance of \<open>sep\<close>, in
  at most \<open>min (Count s sep + 1) (len s + 1) - 1\<close> rounds of its loop; an empty \<open>sep\<close> cuts
  after every byte.
\<close>

fun split_loop :: "nat \<Rightarrow> string \<Rightarrow> string \<Rightarrow> string list" where
  "split_loop 0 s sep = [s]"
| "split_loop (Suc k) s sep =
     (case Index s sep of
        None \<Rightarrow> [s]
      | Some m \<Rightarrow> take m s # split_loop k (drop (m + length sep) s) sep)"

definition Split :: "string \<Rightarrow> string \<Rightarrow> string list" where
  "Split s sep =
     (if sep = [] then map (\<lambda>c. [c]) s
      else split_loop (min (Count s sep + 1) (length s + 1) - 1) s sep)"

section \<open>The nested-test normalizer\<close>

text \<open>
  \<open>ProcessNestedTest\<close> changes the event it is called on; the model returns the changed
  event. The second \<open>if\<close> reads the output of the event after the first one, as the source
  does.
\<close>

definition ProcessNestedTest :: "'t Event \<Rightarrow> 't Event" where
  "ProcessNestedTest e =
     (if NestedTest e then
        let e1 = (if HasPrefix (Output e) ''PASS'' then e\<lparr>Action := ActionPass\<rparr>
                  else if HasPrefix (Output e) ''FAIL'' then e\<lparr>Action := ActionFail\<rparr>
                  else e);
            parts = Split (Replace (Output e1) [TAB] '' '' (- 1)) '' ''
        in if length parts > 2 then e1\<lparr>Test := parts ! 2\<rparr> else e1
      else e)"

section \<open>Coverage: the regular expression, the number parser and \<open>Cover\<close>\<close>

text \<open>
  \<open>Cover\<close> compiles the pattern \<^verbatim>\<open>[0-9]{1,3}\.[0-9]{1}\%\<close>. The part of Go's regular expressions
  that the pattern uses is a literal byte, a byte range, concatenation and bounded greedy
  repetition.
\<close>

datatype regexp =
    Lit char
  | Range char char
  | Cat regexp regexp
  | Repeat regexp nat nat

text \<open>
  \<open>rmatch re s\<close> lists what is left of \<open>s\<close> after each way \<open>re\<close> matches a prefix of it, the
  way Go prefers first: a repetition tries one more round before it stops.
\<close>

fun repeat_match :: "(string \<Rightarrow> string list) \<Rightarrow> nat \<Rightarrow> nat \<Rightarrow> string \<Rightarrow> string list" where
  "repeat_match f lo 0 s = (if lo = 0 then [s] else [])"
| "repeat_match f lo (Suc hi) s =
     concat (map (repeat_match f (lo - 1) hi) (f s)) @ (if lo = 0 then [s] else [])"

primrec rmatch :: "regexp \<Rightarrow> string \<Rightarrow> string list" where
  "rmatch (Lit c) s = (case s of [] \<Rightarrow> [] | x # xs \<Rightarrow> if x = c then [xs] else [])"
| "rmatch (Range a b) s =
     (case s of [] \<Rightarrow> [] | x # xs \<Rightarrow> if a \<le> x \<and> x \<le> b then [xs] else [])"
| "rmatch (Cat r1 r2) s = concat (map (rmatch r2) (rmatch r1 s))"
| "rmatch (Repeat r lo hi) s = repeat_match (rmatch r) lo hi s"

text \<open>
  \<open>FindString\<close> returns the text of the leftmost match, and the empty string when there is
  none.
\<close>

fun FindString :: "regexp \<Rightarrow> string \<Rightarrow> string" where
  "FindString re [] = []"
| "FindString re (c # cs) =
     (case rmatch re (c # cs) of
        [] \<Rightarrow> FindString re cs
      | rest # _ \<Rightarrow> take (length (c # cs) - length rest) (c # cs))"

definition cover_re :: regexp where
  "cover_re =
     Cat (Repeat (Range (CHR ''0'') (CHR ''9'')) 1 3)
       (Cat (Lit (CHR ''.'')) (Cat (Repeat (Range (CHR ''0'') (CHR ''9'')) 1 1) (Lit (CHR ''%''))))"

text \<open>\<open>TrimRight s cutset\<close> removes the trailing bytes of \<open>s\<close> that are in \<open>cutset\<close>.\<close>

definition TrimRight :: "string \<Rightarrow> string \<Rightarrow> string" where
  "TrimRight s cutset = rev (dropWhile (\<lambda>c. c \<in> set cutset) (rev s))"

text \<open>
  \<open>ParseFloat\<close> is modelled on unsigned decimals \<open>digits[.digits]\<close> with at least one digit,
  and returns the value with \<open>nil\<close>, or zero with \<open>ErrSyntax\<close>. Go reads more (a sign, an
  exponent, hexadecimal, infinities, NaN) and reports numbers beyond the range of a
  \<open>float64\<close>; \<open>Cover\<close> passes only the empty string or a numeral of one to three digits, a point
  and one digit (\<open>FindString_shape\<close> below), where the definition is Go's.
\<close>

datatype error = ErrSyntax | SyntaxError | UnmarshalTypeError | TimeParseError | PhasePanic

definition is_digit :: "char \<Rightarrow> bool" where
  "is_digit c = (CHR ''0'' \<le> c \<and> c \<le> CHR ''9'')"

definition digit_val :: "char \<Rightarrow> nat" where
  "digit_val c = of_char c - of_char (CHR ''0'')"

definition digits_val :: "string \<Rightarrow> nat" where
  "digits_val s = foldl (\<lambda>n c. 10 * n + digit_val c) 0 s"

definition ParseFloat :: "string \<Rightarrow> float64 \<times> error option" where
  "ParseFloat s =
     (let ip = takeWhile is_digit s;
          r = dropWhile is_digit s;
          fp = (case r of [] \<Rightarrow> [] | c # t \<Rightarrow> if c = CHR ''.'' then takeWhile is_digit t else []);
          tl = (case r of [] \<Rightarrow> [] | c # t \<Rightarrow> if c = CHR ''.'' then dropWhile is_digit t else r)
      in if tl \<noteq> [] \<or> (ip = [] \<and> fp = []) then (0, Some ErrSyntax)
         else (of_nat (digits_val ip) + of_nat (digits_val fp) / 10 ^ length fp, None))"

text \<open>
  \<open>Cover\<close>: the variable \<open>f\<close> starts at zero; inside the guard it is what \<open>ParseFloat\<close> returned,
  also when that is an error.
\<close>

definition Cover :: "'t Event \<Rightarrow> float64 \<times> bool" where
  "Cover e =
     (if Contains (Output e) ''coverage:'' \<and> HasSuffix (Output e) (''of statements'' @ [NL]) then
        let s = FindString cover_re (Output e);
            (f, err) = ParseFloat (TrimRight s ''%'')
        in if err \<noteq> None then (f, False) else (f, True)
      else (0, False))"

section \<open>The decoder\<close>

text \<open>
  \<open>NewEvent\<close> hands its bytes to \<open>json.Unmarshal\<close>, which is Go's library and not part of
  event.go. The library first checks that the bytes are one well-formed JSON value and
  then stores that value into the \<open>Event\<close>. The model starts from the outcome of the check:
  the input is either \<open>Malformed\<close> or the \<open>Document\<close> that the bytes spell. A JSON string
  (a key as well) is kept as the bytes between its quotes, escapes included, since the
  decoder is what turns them into a Go string; a JSON number is the decimal it denotes.
\<close>

datatype json =
    JNull
  | JBool bool
  | JNumber rat
  | JString string
  | JArray "json list"
  | JObject "(string \<times> json) list"

datatype input = Malformed | Document json

subsection \<open>Strings: \<open>unquoteBytes\<close>\<close>

text \<open>
  \<open>rune_len s\<close> is the number of bytes of the UTF-8 sequence at the head of \<open>s\<close>, and zero
  when there is none (\<open>utf8.DecodeRune\<close> then returns \<open>RuneError\<close> with width one): a lead
  byte \<open>C2\<close> to \<open>DF\<close> takes one continuation byte, \<open>E0\<close> to \<open>EF\<close> two and \<open>F0\<close> to \<open>F4\<close>
  three, the first of them in a narrower range after \<open>E0\<close>, \<open>ED\<close>, \<open>F0\<close> and \<open>F4\<close>.
\<close>

abbreviation BSL :: char where "BSL \<equiv> CHR 0x5C"

definition RuneError :: string where
  "RuneError = [CHR 0xEF, CHR 0xBF, CHR 0xBD]"

definition is_cont :: "char \<Rightarrow> bool" where
  "is_cont c = (CHR 0x80 \<le> c \<and> c \<le> CHR 0xBF)"

definition rune_len :: "string \<Rightarrow> nat" where
  "rune_len s =
     (case s of
        [] \<Rightarrow> 0
      | c0 # r \<Rightarrow>
          if c0 < CHR 0x80 then 1
          else if c0 < CHR 0xC2 then 0
          else if c0 < CHR 0xE0 then
            (case r of c1 # _ \<Rightarrow> if is_cont c1 then 2 else 0 | _ \<Rightarrow> 0)
          else if c0 < CHR 0xF0 then
            (case r of
               c1 # c2 # _ \<Rightarrow>
                 if (if c0 = CHR 0xE0 then CHR 0xA0 else CHR 0x80) \<le> c1 \<and>
                    c1 \<le> (if c0 = CHR 0xED then CHR 0x9F else CHR 0xBF) \<and> is_cont c2
                 then 3 else 0
             | _ \<Rightarrow> 0)
          else if c0 < CHR 0xF5 then
            (case r of
               c1 # c2 # c3 # _ \<Rightarrow>
                 if (if c0 = CHR 0xF0 then CHR 0x90 else CHR 0x80) \<le> c1 \<and>
                    c1 \<le> (if c0 = CHR 0xF4 then CHR 0x8F else CHR 0xBF) \<and>
                    is_cont c2 \<and> is_cont c3
                 then 4 else 0
             | _ \<Rightarrow> 0)
          else 0)"

text \<open>\<open>EncodeRune r\<close> is the UTF-8 sequence of the code point \<open>r\<close>.\<close>

definition EncodeRune :: "nat \<Rightarrow> string" where
  "EncodeRune r =
     (if r < 0x80 then [char_of r]
      else if r < 0x800 then [char_of (0xC0 + r div 64), char_of (0x80 + r mod 64)]
      else if 0xD800 \<le> r \<and> r < 0xE000 then RuneError
      else if r < 0x10000 then
        [char_of (0xE0 + r div 4096), char_of (0x80 + r div 64 mod 64), char_of (0x80 + r mod 64)]
      else if r < 0x110000 then
        [char_of (0xF0 + r div 262144), char_of (0x80 + r div 4096 mod 64),
         char_of (0x80 + r div 64 mod 64), char_of (0x80 + r mod 64)]
      else RuneError)"

text \<open>
  \<open>getu4 s\<close> reads the escape \<^verbatim>\<open>\uXXXX\<close> at the head of \<open>s\<close>; Go's \<open>-1\<close> is \<open>None\<close>.
\<close>

definition hex_val :: "char \<Rightarrow> nat option" where
  "hex_val c =
     (if CHR ''0'' \<le> c \<and> c \<le> CHR ''9'' then Some (of_char c - of_char (CHR ''0''))
      else if CHR ''a'' \<le> c \<and> c \<le> CHR ''f'' then Some (of_char c - of_char (CHR ''a'') + 10)
      else if CHR ''A'' \<le> c \<and> c \<le> CHR ''F'' then Some (of_char c - of_char (CHR ''A'') + 10)
      else None)"

definition getu4 :: "string \<Rightarrow> nat option" where
  "getu4 s =
     (case s of
        b # u # h1 # h2 # h3 # h4 # _ \<Rightarrow>
          if b = BSL \<and> u = CHR ''u'' then
            (case (hex_val h1, hex_val h2, hex_val h3, hex_val h4) of
               (Some a, Some b, Some c, Some d) \<Rightarrow> Some (((a * 16 + b) * 16 + c) * 16 + d)
             | _ \<Rightarrow> None)
          else None
      | _ \<Rightarrow> None)"

text \<open>
  \<open>unquote s\<close> is \<open>unquoteBytes\<close> on the bytes between the quotes. An escape becomes the
  byte or the UTF-8 sequence it names; a surrogate escape that is not the first of a pair
  becomes \<open>RuneError\<close> (U+FFFD); a byte outside ASCII that begins no UTF-8 sequence becomes
  \<open>RuneError\<close> as well. \<open>None\<close> is Go's \<open>ok = false\<close>, for a quote, a control byte or an
  escape that JSON does not have: the check of the bytes has refused those before.
\<close>

function unquote :: "string \<Rightarrow> string option" where
  "unquote [] = Some []"
| "unquote (c # cs) =
     (if c = BSL then
        (case cs of
           [] \<Rightarrow> None
         | e # r \<Rightarrow>
             if e = DQ \<or> e = BSL \<or> e = CHR ''/'' \<or> e = CHR 0x27 then
               map_option ((#) e) (unquote r)
             else if e = CHR ''b'' then map_option ((#) (CHR 0x08)) (unquote r)
             else if e = CHR ''f'' then map_option ((#) (CHR 0x0C)) (unquote r)
             else if e = CHR ''n'' then map_option ((#) NL) (unquote r)
             else if e = CHR ''r'' then map_option ((#) (CHR 0x0D)) (unquote r)
             else if e = CHR ''t'' then map_option ((#) TAB) (unquote r)
             else if e = CHR ''u'' then
               (case getu4 (c # cs) of
                  None \<Rightarrow> None
                | Some rr \<Rightarrow>
                    if 0xD800 \<le> rr \<and> rr < 0xE000 then
                      (case getu4 (drop 6 (c # cs)) of
                         None \<Rightarrow> map_option ((@) RuneError) (unquote (drop 6 (c # cs)))
                       | Some rr1 \<Rightarrow>
                           if rr < 0xDC00 \<and> 0xDC00 \<le> rr1 \<and> rr1 < 0xE000 then
                             map_option
                               ((@) (EncodeRune
                                  ((rr - 0xD800) * 1024 + (rr1 - 0xDC00) + 0x10000)))
                               (unquote (drop 12 (c # cs)))
                           else map_option ((@) RuneError) (unquote (drop 6 (c # cs))))
                    else map_option ((@) (EncodeRune rr)) (unquote (drop 6 (c # cs))))
             else None)
      else if c = DQ \<or> c < CHR 0x20 then None
      else if c < CHR 0x80 then map_option ((#) c) (unquote cs)
      else if rune_len (c # cs) = 0 then map_option ((@) RuneError) (unquote cs)
      else map_option ((@) (take (rune_len (c # cs)) (c # cs)))
             (unquote (drop (rune_len (c # cs)) (c # cs))))"
  by pat_completeness auto
termination
  by (relation "measure length") auto

subsection \<open>Keys: the field that a key names\<close>

text \<open>
  A key names a field of the struct when it is the field's name, or else when the two are
  equal after folding: an ASCII letter folds to its capital, the Kelvin sign U+212A (bytes
  \<open>E2 84 AA\<close>) to \<open>K\<close> and the long s U+017F (bytes \<open>C5 BF\<close>) to \<open>S\<close>. Go folds every other
  letter outside ASCII to one outside ASCII; such bytes are kept as they are here, and
  either way they equal no byte of a field's name.
\<close>

datatype field = FAction | FOutput | FTime | FPackage | FTest | FElapsed

definition fields :: "(string \<times> field) list" where
  "fields =
     [(''Action'', FAction), (''Output'', FOutput), (''Time'', FTime),
      (''Package'', FPackage), (''Test'', FTest), (''Elapsed'', FElapsed)]"

definition upper :: "char \<Rightarrow> char" where
  "upper c = (if CHR ''a'' \<le> c \<and> c \<le> CHR ''z'' then char_of (of_char c - (32 :: nat)) else c)"

fun foldName :: "string \<Rightarrow> string" where
  "foldName (a # b # c # cs) =
     (if a = CHR 0xE2 \<and> b = CHR 0x84 \<and> c = CHR 0xAA then CHR ''K'' # foldName cs
      else if a = CHR 0xC5 \<and> b = CHR 0xBF then CHR ''S'' # foldName (c # cs)
      else upper a # foldName (b # c # cs))"
| "foldName [a, b] =
     (if a = CHR 0xC5 \<and> b = CHR 0xBF then [CHR ''S''] else upper a # foldName [b])"
| "foldName [a] = [upper a]"
| "foldName [] = []"

definition find_field :: "string \<Rightarrow> field option" where
  "find_field key =
     (case map_of fields key of
        Some f \<Rightarrow> Some f
      | None \<Rightarrow> map_of (map (\<lambda>(n, f). (foldName n, f)) fields) (foldName key))"

subsection \<open>Numbers: the nearest \<open>float64\<close>\<close>

text \<open>
  The decoder stores a number as \<open>strconv.ParseFloat\<close> reads it: rounded to the nearest
  double, to the even one of two that are equally near. \<open>binade q\<close> is the exponent \<open>e\<close> with
  \<open>2^e \<le> |q| < 2^(e+1)\<close>. The doubles around \<open>q\<close> are the multiples of \<open>2^(e-52)\<close>, and
  of \<open>2^(-1074)\<close> below \<open>2^(-1022)\<close>, where a number can round to zero. A number of
  magnitude \<open>2^1024 - 2^970\<close> or more rounds beyond the largest double and is refused. The
  sign of a zero is not kept.
\<close>

definition pow2 :: "int \<Rightarrow> rat" where
  "pow2 e = (if 0 \<le> e then 2 ^ nat e else 1 / 2 ^ nat (- e))"

function bit_length :: "int \<Rightarrow> int" where
  "bit_length n = (if n \<le> 0 then 0 else 1 + bit_length (n div 2))"
  by pat_completeness auto
termination
  by (relation "measure nat") auto

declare bit_length.simps [simp del]

definition binade :: "rat \<Rightarrow> int" where
  "binade q =
     (if 1 \<le> \<bar>q\<bar> then bit_length \<lfloor>\<bar>q\<bar>\<rfloor> - 1
      else - bit_length (\<lceil>1 / \<bar>q\<bar>\<rceil> - 1))"

definition round_even :: "rat \<Rightarrow> int" where
  "round_even x =
     (let f = \<lfloor>x\<rfloor>; r = x - of_int f
      in if r < 1 / 2 then f else if 1 / 2 < r then f + 1 else if even f then f else f + 1)"

definition round64 :: "rat \<Rightarrow> float64" where
  "round64 q =
     (if q = 0 then 0
      else let u = pow2 (max (binade q) (- 1022) - 52)
           in sgn q * of_int (round_even (\<bar>q\<bar> / u)) * u)"

subsection \<open>Storing a value into a field\<close>

text \<open>
  The state of the decoder is the event so far and the first error it has kept
  (\<open>saveError\<close>). \<open>null\<close> leaves a field as it is. A string field takes a JSON string,
  unquoted; \<open>Elapsed\<close> takes a JSON number in range, rounded; a value of another kind is a
  mismatch, which is kept as an \<open>UnmarshalTypeError\<close> while the decoding goes on.
  \<open>time.Time\<close> decodes itself from the bytes of the value: it takes a JSON string that the
  time parser accepts, as it stands between its quotes, and any error of it ends the
  decoding at once. The time parser (RFC 3339, in Go's \<open>time\<close> package) is the parameter
  \<open>parseTime\<close>. A string that cannot be unquoted makes Go panic (\<open>PhasePanic\<close>).
\<close>

fun saveError :: "error \<Rightarrow> error option \<Rightarrow> error option" where
  "saveError err None = Some err"
| "saveError err (Some first) = Some first"

definition store_text ::
  "(string \<Rightarrow> 't Event \<Rightarrow> 't Event) \<Rightarrow> json \<Rightarrow> 't Event \<times> error option \<Rightarrow>
     error + 't Event \<times> error option"
where
  "store_text upd v st =
     (case v of
        JNull \<Rightarrow> Inr st
      | JString raw \<Rightarrow>
          (case unquote raw of
             None \<Rightarrow> Inl PhasePanic
           | Some s \<Rightarrow> Inr (upd s (fst st), snd st))
      | _ \<Rightarrow> Inr (fst st, saveError UnmarshalTypeError (snd st)))"

definition store_float ::
  "json \<Rightarrow> 't Event \<times> error option \<Rightarrow> error + 't Event \<times> error option"
where
  "store_float v st =
     (case v of
        JNull \<Rightarrow> Inr st
      | JNumber q \<Rightarrow>
          if \<bar>q\<bar> < 2 ^ 1024 - 2 ^ 970 then Inr ((fst st)\<lparr>Elapsed := round64 q\<rparr>, snd st)
          else Inr (fst st, saveError UnmarshalTypeError (snd st))
      | JString raw \<Rightarrow>
          (case unquote raw of
             None \<Rightarrow> Inl PhasePanic
           | Some s \<Rightarrow> Inr (fst st, saveError UnmarshalTypeError (snd st)))
      | _ \<Rightarrow> Inr (fst st, saveError UnmarshalTypeError (snd st)))"

definition store_time ::
  "(string \<Rightarrow> 't option) \<Rightarrow> json \<Rightarrow> 't Event \<times> error option \<Rightarrow>
     error + 't Event \<times> error option"
where
  "store_time parseTime v st =
     (case v of
        JNull \<Rightarrow> Inr st
      | JString raw \<Rightarrow>
          (case parseTime raw of
             None \<Rightarrow> Inl TimeParseError
           | Some t \<Rightarrow> Inr ((fst st)\<lparr>Time := t\<rparr>, snd st))
      | _ \<Rightarrow> Inl TimeParseError)"

text \<open>
  One member of the object: its key is unquoted and looked up; a member whose key names no
  field is skipped.
\<close>

definition object_member ::
  "(string \<Rightarrow> 't option) \<Rightarrow> string \<times> json \<Rightarrow> 't Event \<times> error option \<Rightarrow>
     error + 't Event \<times> error option"
where
  "object_member parseTime m st =
     (case unquote (fst m) of
        None \<Rightarrow> Inl PhasePanic
      | Some key \<Rightarrow>
          (case find_field key of
             None \<Rightarrow> Inr st
           | Some FAction \<Rightarrow> store_text (\<lambda>s e. e\<lparr>Action := s\<rparr>) (snd m) st
           | Some FOutput \<Rightarrow> store_text (\<lambda>s e. e\<lparr>Output := s\<rparr>) (snd m) st
           | Some FPackage \<Rightarrow> store_text (\<lambda>s e. e\<lparr>Package := s\<rparr>) (snd m) st
           | Some FTest \<Rightarrow> store_text (\<lambda>s e. e\<lparr>Test := s\<rparr>) (snd m) st
           | Some FElapsed \<Rightarrow> store_float (snd m) st
           | Some FTime \<Rightarrow> store_time parseTime (snd m) st))"

fun object_loop ::
  "(string \<Rightarrow> 't option) \<Rightarrow> (string \<times> json) list \<Rightarrow> 't Event \<times> error option \<Rightarrow>
     error + 't Event \<times> error option"
where
  "object_loop parseTime [] st = Inr st"
| "object_loop parseTime (m # ms) st =
     (case object_member parseTime m st of
        Inl err \<Rightarrow> Inl err
      | Inr st' \<Rightarrow> object_loop parseTime ms st')"

text \<open>
  \<open>Unmarshal\<close> into a struct: \<open>null\<close> changes nothing, an object is decoded member by member
  and the kept error, if there is one, is returned at the end; any other value is a
  mismatch.
\<close>

definition Unmarshal :: "(string \<Rightarrow> 't option) \<Rightarrow> input \<Rightarrow> 't Event \<Rightarrow> error + 't Event" where
  "Unmarshal parseTime data e =
     (case data of
        Malformed \<Rightarrow> Inl SyntaxError
      | Document JNull \<Rightarrow> Inr e
      | Document (JObject ms) \<Rightarrow>
          (case object_loop parseTime ms (e, None) of
             Inl err \<Rightarrow> Inl err
           | Inr (e', None) \<Rightarrow> Inr e'
           | Inr (e', Some err) \<Rightarrow> Inl err)
      | Document v \<Rightarrow> Inl UnmarshalTypeError)"

text \<open>
  \<open>NewEvent\<close>: \<open>var e Event\<close> is the event of zero values, \<open>zeroTime\<close> being the zero
  \<open>time.Time\<close>; an error of \<open>Unmarshal\<close> is returned without the event.
\<close>

definition NewEvent :: "(string \<Rightarrow> 't option) \<Rightarrow> 't \<Rightarrow> input \<Rightarrow> error + 't Event" where
  "NewEvent parseTime zeroTime data =
     (case Unmarshal parseTime data
        \<lparr>Action = '''', Output = '''', Time = zeroTime, Package = '''', Test = '''', Elapsed = 0\<rparr> of
        Inl err \<Rightarrow> Inl err
      | Inr e \<Rightarrow> Inr e)"

subsection \<open>What a line gives for each field\<close>

text \<open>
  These definitions read a line the way Go matches its keys, not by the case-sensitive
  names of the specification. \<open>key_field k\<close> is the field that the key \<open>k\<close> names, if any;
  \<open>named f ms\<close> are the values that the members of an object give for the field \<open>f\<close>, in
  order, and the field is absent when there are none. A member is well typed when its key
  names no field, or its value has the type of the field it names: a string for \<open>Action\<close>,
  \<open>Output\<close>, \<open>Package\<close> and \<open>Test\<close>, a number in the range of a \<open>float64\<close> for \<open>Elapsed\<close>, and a
  string that the time parser accepts for \<open>Time\<close>.
\<close>

definition key_field :: "string \<Rightarrow> field option" where
  "key_field k = (case unquote k of None \<Rightarrow> None | Some key \<Rightarrow> find_field key)"

definition named :: "field \<Rightarrow> (string \<times> json) list \<Rightarrow> json list" where
  "named f ms = map snd (filter (\<lambda>m. key_field (fst m) = Some f) ms)"





section \<open>The words of the specification\<close>

text \<open>
  The claims are stated with the definitions of this section, which follow the sentences of
  the specification and not the code; the facts after it relate them to the code.
\<close>

subsection \<open>Tokens of an output line\<close>

text \<open>Every tab becomes a space, and the text is cut at every space.\<close>

definition tabs_to_spaces :: "string \<Rightarrow> string" where
  "tabs_to_spaces s = map (\<lambda>c. if c = TAB then CHR '' '' else c) s"

fun tokens :: "char \<Rightarrow> string \<Rightarrow> string list" where
  "tokens c [] = [[]]"
| "tokens c (x # xs) =
     (if x = c then [] # tokens c xs
      else (case tokens c xs of [] \<Rightarrow> [[x]] | t # ts \<Rightarrow> (x # t) # ts))"

subsection \<open>Numerals of the coverage pattern\<close>

text \<open>
  A numeral of the pattern is one to three digits, a point, one digit and a percent sign.
\<close>

definition cover_numeral :: "string \<Rightarrow> bool" where
  "cover_numeral m \<longleftrightarrow>
     (\<exists>ds d. m = ds @ ''.'' @ [d] @ ''%'' \<and> ds \<noteq> [] \<and> length ds \<le> 3 \<and>
        list_all is_digit ds \<and> is_digit d)"

text \<open>The pattern after its digits, for the proofs.\<close>

definition tail_re :: regexp where
  "tail_re = Cat (Lit (CHR ''.'')) (Cat (Repeat (Range (CHR ''0'') (CHR ''9'')) 1 1) (Lit (CHR ''%'')))"

section \<open>Facts about the string functions\<close>

lemma HasPrefix_prefix: "HasPrefix s p \<longleftrightarrow> prefix p s"
  unfolding HasPrefix_def
proof
  assume "length p \<le> length s \<and> take (length p) s = p"
  then have "s = p @ drop (length p) s"
    by (metis append_take_drop_id)
  then show "prefix p s"
    by (rule prefixI)
next
  assume "prefix p s"
  then obtain r where "s = p @ r"
    by (auto simp: prefix_def)
  then show "length p \<le> length s \<and> take (length p) s = p"
    by simp
qed

lemma HasSuffix_suffix: "HasSuffix s p \<longleftrightarrow> suffix p s"
  unfolding HasSuffix_def
proof
  assume a: "length p \<le> length s \<and> drop (length s - length p) s = p"
  have "s = take (length s - length p) s @ drop (length s - length p) s"
    by simp
  with a have "s = take (length s - length p) s @ p"
    by simp
  then show "suffix p s"
    by (rule suffixI)
next
  assume "suffix p s"
  then obtain r where "s = r @ p"
    by (auto simp: suffix_def)
  then show "length p \<le> length s \<and> drop (length s - length p) s = p"
    by simp
qed

lemma Index_None: "Index s sub = None \<longleftrightarrow> \<not> sublist sub s"
proof (induction s)
  case Nil
  then show ?case by simp
next
  case (Cons c cs)
  show ?case
  proof (cases sub)
    case Nil
    then show ?thesis by (simp add: HasPrefix_def)
  next
    case (Cons x xs)
    with Cons.IH show ?thesis
      by (simp add: HasPrefix_prefix sublist_Cons_right)
  qed
qed

lemma Contains_sublist: "Contains s sub \<longleftrightarrow> sublist sub s"
  by (simp add: Contains_def Index_None)

lemma Contains_iff: "Contains s sub \<longleftrightarrow> (\<exists>a b. s = a @ sub @ b)"
  by (simp add: Contains_sublist sublist_def)

lemma Index_char_absent: "c \<notin> set s \<Longrightarrow> Index s [c] = None"
  by (induction s) (auto simp: HasPrefix_def)

lemma Index_char_first: "c \<notin> set a \<Longrightarrow> Index (a @ c # b) [c] = Some (length a)"
  by (induction a) (auto simp: HasPrefix_def)

lemma Count_char_absent: "c \<notin> set s \<Longrightarrow> Count s [c] = 0"
  by (simp add: Count.simps [of s] Index_char_absent)

lemma Count_char_first: "c \<notin> set a \<Longrightarrow> Count (a @ c # b) [c] = Suc (Count b [c])"
  by (simp add: Count.simps [of "a @ c # b"] Index_char_first)

lemma Count_char: "Count s [c] = length (filter (\<lambda>x. x = c) s)"
proof (induction "length s" arbitrary: s rule: less_induct)
  case less
  show ?case
  proof (cases "c \<in> set s")
    case False
    then have "filter (\<lambda>x. x = c) s = []"
      by (auto simp: filter_empty_conv)
    with False show ?thesis
      by (simp add: Count_char_absent)
  next
    case True
    then obtain a b where s: "s = a @ c # b" and a: "c \<notin> set a"
      by (auto dest: split_list_first)
    from a have fa: "filter (\<lambda>x. x = c) a = []"
      by (auto simp: filter_empty_conv)
    have "length b < length s"
      using s by simp
    then have "Count b [c] = length (filter (\<lambda>x. x = c) b)"
      by (rule less.hyps)
    with s a fa show ?thesis
      by (simp add: Count_char_first)
  qed
qed

lemma tokens_absent: "c \<notin> set a \<Longrightarrow> tokens c a = [a]"
  by (induction a) auto

lemma tokens_first: "c \<notin> set a \<Longrightarrow> tokens c (a @ c # b) = a # tokens c b"
  by (induction a) auto

lemma split_loop_tokens:
  "length (filter (\<lambda>x. x = c) s) \<le> k \<Longrightarrow> split_loop k s [c] = tokens c s"
proof (induction k arbitrary: s)
  case 0
  then have "c \<notin> set s"
    by (auto simp: filter_empty_conv)
  then show ?case
    by (simp add: tokens_absent)
next
  case (Suc k)
  show ?case
  proof (cases "c \<in> set s")
    case False
    then show ?thesis
      by (simp add: tokens_absent Index_char_absent)
  next
    case True
    then obtain a b where s: "s = a @ c # b" and a: "c \<notin> set a"
      by (auto dest: split_list_first)
    from a have fa: "filter (\<lambda>x. x = c) a = []"
      by (auto simp: filter_empty_conv)
    with Suc.prems s have "length (filter (\<lambda>x. x = c) b) \<le> k"
      by simp
    then have "split_loop k b [c] = tokens c b"
      by (rule Suc.IH)
    with s a show ?thesis
      by (simp add: Index_char_first tokens_first)
  qed
qed

lemma Split_tokens: "Split s [c] = tokens c s"
proof -
  have "length (filter (\<lambda>x. x = c) s) \<le> length s"
    by simp
  then have "min (Count s [c] + 1) (length s + 1) - 1 = length (filter (\<lambda>x. x = c) s)"
    by (simp add: Count_char)
  then show ?thesis
    by (simp add: Split_def split_loop_tokens)
qed

lemma replace_loop_map:
  "length (filter (\<lambda>x. x = c) s) \<le> k \<Longrightarrow>
   replace_loop k s [c] [d] = map (\<lambda>x. if x = c then d else x) s"
proof (induction k arbitrary: s)
  case 0
  then have "c \<notin> set s"
    by (auto simp: filter_empty_conv)
  then have "map (\<lambda>x. if x = c then d else x) s = s"
    by (induction s) auto
  then show ?case by simp
next
  case (Suc k)
  show ?case
  proof (cases "c \<in> set s")
    case False
    then have "map (\<lambda>x. if x = c then d else x) s = s"
      by (induction s) auto
    with False show ?thesis
      by (simp add: Index_char_absent)
  next
    case True
    then obtain a b where s: "s = a @ c # b" and a: "c \<notin> set a"
      by (auto dest: split_list_first)
    from a have fa: "filter (\<lambda>x. x = c) a = []"
      by (auto simp: filter_empty_conv)
    from a have ma: "map (\<lambda>x. if x = c then d else x) a = a"
      by (induction a) auto
    from Suc.prems s fa have "length (filter (\<lambda>x. x = c) b) \<le> k"
      by simp
    then have "replace_loop k b [c] [d] = map (\<lambda>x. if x = c then d else x) b"
      by (rule Suc.IH)
    with s a ma show ?thesis
      by (simp add: Index_char_first)
  qed
qed

lemma Replace_char: "Replace s [c] [d] (- 1) = map (\<lambda>x. if x = c then d else x) s"
proof (cases "c = d")
  case True
  then have "map (\<lambda>x. if x = c then d else x) s = s"
    by (induction s) auto
  with True show ?thesis
    by (simp add: Replace_def)
next
  case False
  show ?thesis
  proof (cases "Count s [c] = 0")
    case True
    then have "c \<notin> set s"
      by (auto simp: Count_char filter_empty_conv)
    then have "map (\<lambda>x. if x = c then d else x) s = s"
      by (induction s) auto
    with True False show ?thesis
      by (simp add: Replace_def)
  next
    case nz: False
    with False show ?thesis
      by (simp add: Replace_def Let_def replace_loop_map Count_char)
  qed
qed

lemma parts_spec:
  "Split (Replace s [TAB] '' '' (- 1)) '' '' = tokens (CHR '' '') (tabs_to_spaces s)"
  by (simp add: Replace_char Split_tokens tabs_to_spaces_def)

section \<open>Facts about the regular expression and \<open>Cover\<close>\<close>

lemma digit_step:
  "u \<in> set (rmatch (Range (CHR ''0'') (CHR ''9'')) s) \<Longrightarrow> \<exists>x. s = x # u \<and> is_digit x"
  by (cases s) (auto simp: is_digit_def split: if_splits)

lemma repeat_match_sound:
  assumes step: "\<And>s u. u \<in> set (f s) \<Longrightarrow> \<exists>x. s = x # u \<and> P x"
  shows "t \<in> set (repeat_match f lo hi s) \<Longrightarrow>
   \<exists>ds. s = ds @ t \<and> lo \<le> length ds \<and> length ds \<le> hi \<and> list_all P ds"
proof (induction hi arbitrary: lo s)
  case 0
  then show ?case by (simp split: if_splits)
next
  case (Suc hi)
  from Suc.prems consider
      (more) u where "u \<in> set (f s)" "t \<in> set (repeat_match f (lo - 1) hi u)"
    | (stop) "lo = 0" "t = s"
    by (auto split: if_splits)
  then show ?case
  proof cases
    case more
    from step [OF more(1)] obtain x where s: "s = x # u" and x: "P x"
      by blast
    from Suc.IH [OF more(2)] obtain ds where
      ds: "u = ds @ t" "lo - 1 \<le> length ds" "length ds \<le> hi" "list_all P ds"
      by blast
    have "s = (x # ds) @ t \<and> lo \<le> length (x # ds) \<and> length (x # ds) \<le> Suc hi \<and>
        list_all P (x # ds)"
      using s x ds by auto
    then show ?thesis by blast
  next
    case stop
    then show ?thesis by simp
  qed
qed

lemma rmatch_tail:
  "rmatch tail_re t =
     (case t of
        a # d # b # rest \<Rightarrow>
          if a = CHR ''.'' \<and> is_digit d \<and> b = CHR ''%'' then [rest] else []
      | _ \<Rightarrow> [])"
  by (auto simp: tail_re_def is_digit_def split: list.splits)

lemma not_digit_dot: "\<not> is_digit (CHR ''.'')"
  by (simp add: is_digit_def)

lemma cover_re_tail:
  "rmatch cover_re s =
     concat (map (rmatch tail_re) (repeat_match (rmatch (Range (CHR ''0'') (CHR ''9''))) 1 3 s))"
  by (simp add: cover_re_def tail_re_def)

lemma rmatch_cover_sound:
  assumes "rmatch cover_re s \<noteq> []"
  shows "\<exists>m rest. s = m @ rest \<and> cover_numeral m"
proof -
  from assms obtain t where
    t: "t \<in> set (repeat_match (rmatch (Range (CHR ''0'') (CHR ''9''))) 1 3 s)"
    and nz: "rmatch tail_re t \<noteq> []"
    unfolding cover_re_tail by (auto simp: concat_eq_Nil_conv)
  from repeat_match_sound [OF digit_step t] obtain ds where
    ds: "s = ds @ t" "1 \<le> length ds" "length ds \<le> 3" "list_all is_digit ds"
    by blast
  from nz obtain d rest where t': "t = CHR ''.'' # d # CHR ''%'' # rest" and d: "is_digit d"
    by (auto simp: rmatch_tail split: list.splits if_splits)
  have "s = (ds @ ''.'' @ [d] @ ''%'') @ rest"
    using ds t' by simp
  moreover have "cover_numeral (ds @ ''.'' @ [d] @ ''%'')"
    unfolding cover_numeral_def using ds d by force
  ultimately show ?thesis by blast
qed

lemma rmatch_cover_complete:
  assumes "ds \<noteq> []" "length ds \<le> 3" "list_all is_digit ds" "is_digit d"
  shows "rmatch cover_re (ds @ ''.'' @ [d] @ ''%'' @ rest) = [rest]"
proof -
  consider (one) a where "ds = [a]" | (two) a b where "ds = [a, b]"
    | (three) a b c where "ds = [a, b, c]"
    using assms(1,2)
    by (cases ds; cases "tl ds"; cases "tl (tl ds)"; cases "tl (tl (tl ds))") auto
  then show ?thesis
  proof cases
    case one
    with assms show ?thesis
      by (simp add: cover_re_tail rmatch_tail is_digit_def eval_nat_numeral)
  next
    case two
    with assms show ?thesis
      by (simp add: cover_re_tail rmatch_tail is_digit_def eval_nat_numeral)
  next
    case three
    with assms show ?thesis
      by (simp add: cover_re_tail rmatch_tail is_digit_def eval_nat_numeral)
  qed
qed

lemma rmatch_cover_numeral:
  assumes "cover_numeral m"
  shows "rmatch cover_re (m @ rest) = [rest]"
proof -
  from assms obtain ds d where "m = ds @ ''.'' @ [d] @ ''%''" "ds \<noteq> []" "length ds \<le> 3"
    "list_all is_digit ds" "is_digit d"
    unfolding cover_numeral_def by blast
  then show ?thesis
    using rmatch_cover_complete [of ds d rest] by simp
qed

lemma cover_numeral_nonempty: "cover_numeral m \<Longrightarrow> m \<noteq> []"
  by (auto simp: cover_numeral_def)

lemma FindString_none:
  "(\<And>i. rmatch cover_re (drop i s) = []) \<Longrightarrow> FindString cover_re s = []"
proof (induction s)
  case Nil
  then show ?case by simp
next
  case (Cons c cs)
  have "rmatch cover_re (c # cs) = []"
    using Cons.prems [of 0] by simp
  moreover have "FindString cover_re cs = []"
  proof (rule Cons.IH)
    fix i
    show "rmatch cover_re (drop i cs) = []"
      using Cons.prems [of "Suc i"] by simp
  qed
  ultimately show ?case by simp
qed

lemma FindString_first:
  assumes "cover_numeral m" "\<And>i. i < length pre \<Longrightarrow> rmatch cover_re (drop i (pre @ m @ post)) = []"
  shows "FindString cover_re (pre @ m @ post) = m"
  using assms(2)
proof (induction pre)
  case Nil
  from assms(1) obtain x xs where m: "m = x # xs"
    by (cases m) (auto dest: cover_numeral_nonempty)
  have "rmatch cover_re (m @ post) = [post]"
    using assms(1) by (rule rmatch_cover_numeral)
  then show ?case
    using m by simp
next
  case (Cons c pre)
  have "rmatch cover_re (c # pre @ m @ post) = []"
    using Cons.prems [of 0] by simp
  moreover have "FindString cover_re (pre @ m @ post) = m"
  proof (rule Cons.IH)
    fix i
    assume "i < length pre"
    then show "rmatch cover_re (drop i (pre @ m @ post)) = []"
      using Cons.prems [of "Suc i"] by simp
  qed
  ultimately show ?case by simp
qed

lemma no_numeral_no_match:
  assumes "\<not> (\<exists>pre m post. s = pre @ m @ post \<and> cover_numeral m)"
  shows "rmatch cover_re (drop i s) = []"
proof (rule ccontr)
  assume "rmatch cover_re (drop i s) \<noteq> []"
  then obtain m rest where "drop i s = m @ rest" "cover_numeral m"
    by (auto dest: rmatch_cover_sound)
  then have "s = take i s @ m @ rest \<and> cover_numeral m"
    by (metis append_take_drop_id)
  with assms show False by blast
qed

lemma leftmost_no_match:
  assumes "\<forall>pre' m' post'. s = pre' @ m' @ post' \<and> cover_numeral m' \<longrightarrow> n \<le> length pre'"
    and "i < n"
  shows "rmatch cover_re (drop i s) = []"
proof (rule ccontr)
  assume "rmatch cover_re (drop i s) \<noteq> []"
  then obtain m rest where mr: "drop i s = m @ rest" "cover_numeral m"
    by (auto dest: rmatch_cover_sound)
  have "i \<le> length s"
  proof (rule ccontr)
    assume "\<not> i \<le> length s"
    then have "drop i s = []" by simp
    with mr show False by (auto dest: cover_numeral_nonempty)
  qed
  then have "length (take i s) = i" by simp
  moreover have "s = take i s @ m @ rest"
    using mr(1) by (metis append_take_drop_id)
  ultimately have "n \<le> i"
    using assms(1) mr(2) by metis
  with assms(2) show False by simp
qed

lemma leftmostI:
  assumes "list_all (\<lambda>i. rmatch cover_re (drop i s) = []) [0..<n]"
  shows "\<forall>pre' m' post'. s = pre' @ m' @ post' \<and> cover_numeral m' \<longrightarrow> n \<le> length pre'"
proof (intro allI impI)
  fix pre' m' post'
  assume h: "s = pre' @ m' @ post' \<and> cover_numeral m'"
  show "n \<le> length pre'"
  proof (rule ccontr)
    assume "\<not> n \<le> length pre'"
    then have "length pre' \<in> set [0..<n]" by simp
    with assms have "rmatch cover_re (drop (length pre') s) = []"
      unfolding list_all_iff by blast
    moreover have "rmatch cover_re (drop (length pre') s) = [post']"
      using h by (simp add: rmatch_cover_numeral)
    ultimately show False by simp
  qed
qed

lemma TrimRight_numeral:
  "is_digit d \<Longrightarrow> TrimRight (ds @ [CHR ''.'', d, CHR ''%'']) ''%'' = ds @ [CHR ''.'', d]"
  by (auto simp: TrimRight_def is_digit_def)

lemma ParseFloat_numeral:
  assumes "ds \<noteq> []" "list_all is_digit ds" "is_digit d"
  shows "ParseFloat (ds @ [CHR ''.'', d]) =
    (of_nat (digits_val ds) + of_nat (digit_val d) / 10, None)"
proof -
  have tw: "takeWhile is_digit (ds @ CHR ''.'' # [d]) = ds"
    using assms(2) by (simp add: takeWhile_append2 list_all_iff not_digit_dot)
  have dw: "dropWhile is_digit (ds @ CHR ''.'' # [d]) = CHR ''.'' # [d]"
    using assms(2) by (simp add: dropWhile_append2 list_all_iff not_digit_dot)
  have dv: "digits_val [d] = digit_val d"
    by (simp add: digits_val_def)
  show ?thesis
    using assms(1,3) by (simp add: ParseFloat_def tw dw dv Let_def)
qed

lemma ParseFloat_empty: "ParseFloat [] = (0, Some ErrSyntax)"
  by (simp add: ParseFloat_def)

lemma Cover_guard:
  "Contains (Output e) ''coverage:'' \<and> HasSuffix (Output e) (''of statements'' @ [NL]) \<longleftrightarrow>
   sublist ''coverage:'' (Output e) \<and> suffix (''of statements'' @ [NL]) (Output e)"
  by (simp add: Contains_sublist HasSuffix_suffix)

lemma Cover_unguarded:
  assumes "\<not> (sublist ''coverage:'' (Output e) \<and> suffix (''of statements'' @ [NL]) (Output e))"
  shows "Cover e = (0, False)"
proof -
  have "(Contains (Output e) ''coverage:'' \<and> HasSuffix (Output e) (''of statements'' @ [NL])) = False"
    using assms by (simp only: Cover_guard)
  then show ?thesis
    unfolding Cover_def by (simp only: if_False)
qed

lemma Cover_no_numeral:
  assumes "\<not> (\<exists>pre m post. Output e = pre @ m @ post \<and> cover_numeral m)"
  shows "Cover e = (0, False)"
proof -
  have "FindString cover_re (Output e) = []"
    using assms by (intro FindString_none no_numeral_no_match)
  then show ?thesis
    by (simp add: Cover_def TrimRight_def ParseFloat_empty)
qed

lemma Cover_numeral:
  assumes g: "sublist ''coverage:'' (Output e) \<and> suffix (''of statements'' @ [NL]) (Output e)"
    and out: "Output e = pre @ (ds @ ''.'' @ [d] @ ''%'') @ post"
    and ds: "ds \<noteq> []" "length ds \<le> 3" "list_all is_digit ds" and d: "is_digit d"
    and first: "\<forall>pre' m' post'. Output e = pre' @ m' @ post' \<and> cover_numeral m' \<longrightarrow>
        length pre \<le> length pre'"
  shows "Cover e = (of_nat (digits_val ds) + of_nat (digit_val d) / 10, True)"
proof -
  have num: "cover_numeral (ds @ ''.'' @ [d] @ ''%'')"
    unfolding cover_numeral_def using ds d by blast
  have "FindString cover_re (pre @ (ds @ ''.'' @ [d] @ ''%'') @ post) = ds @ ''.'' @ [d] @ ''%''"
    using num
  proof (rule FindString_first)
    fix i
    assume "i < length pre"
    with first show "rmatch cover_re (drop i (pre @ (ds @ ''.'' @ [d] @ ''%'') @ post)) = []"
      unfolding out by (rule leftmost_no_match)
  qed
  then have "FindString cover_re (Output e) = ds @ ''.'' @ [d] @ ''%''"
    by (simp only: out)
  moreover have "Contains (Output e) ''coverage:'' \<and> HasSuffix (Output e) (''of statements'' @ [NL])"
    using g by (simp only: Cover_guard)
  ultimately show ?thesis
    using ds d by (simp add: Cover_def TrimRight_numeral ParseFloat_numeral)
qed

lemma FindString_shape:
  "FindString cover_re s = [] \<or> cover_numeral (FindString cover_re s)"
proof (induction s)
  case Nil
  then show ?case by simp
next
  case (Cons c cs)
  show ?case
  proof (cases "rmatch cover_re (c # cs) = []")
    case True
    with Cons.IH show ?thesis by simp
  next
    case False
    then obtain m rest where m: "c # cs = m @ rest" "cover_numeral m"
      by (auto dest: rmatch_cover_sound)
    then have "rmatch cover_re (c # cs) = [rest]"
      by (simp add: rmatch_cover_numeral)
    moreover have "take (length (c # cs) - length rest) (c # cs) = m"
      unfolding m(1) by simp
    ultimately have "FindString cover_re (c # cs) = m"
      by (simp del: length_Cons take_Suc_Cons)
    with m(2) show ?thesis by simp
  qed
qed

lemma cover_numeral_chars:
  assumes "cover_numeral m"
  shows "CHR ''%'' \<in> set m \<and> (\<forall>x\<in>set m. is_digit x \<or> x = CHR ''.'' \<or> x = CHR ''%'')"
proof -
  from assms obtain ds d where "m = ds @ ''.'' @ [d] @ ''%''" "list_all is_digit ds" "is_digit d"
    unfolding cover_numeral_def by blast
  then show ?thesis
    by (auto simp: list_all_iff)
qed

lemma FindString_empty_no_match:
  "FindString cover_re s = [] \<Longrightarrow> rmatch cover_re (drop i s) = []"
proof (induction s arbitrary: i)
  case Nil
  show ?case
  proof (rule ccontr)
    assume "rmatch cover_re (drop i []) \<noteq> []"
    then obtain m rest where "[] = m @ rest" "cover_numeral m"
      by (auto dest: rmatch_cover_sound)
    then show False
      by (auto dest: cover_numeral_nonempty)
  qed
next
  case (Cons c cs)
  have nomatch: "rmatch cover_re (c # cs) = []"
  proof (rule ccontr)
    assume nz: "rmatch cover_re (c # cs) \<noteq> []"
    then obtain m rest where m: "c # cs = m @ rest" "cover_numeral m"
      by (auto dest: rmatch_cover_sound)
    then have "rmatch cover_re (c # cs) = [rest]"
      by (simp add: rmatch_cover_numeral)
    moreover have "take (length (c # cs) - length rest) (c # cs) = m"
      unfolding m(1) by simp
    ultimately have "FindString cover_re (c # cs) = m"
      by (simp del: length_Cons take_Suc_Cons)
    with Cons.prems m(2) show False
      by (auto dest: cover_numeral_nonempty)
  qed
  with Cons.prems have rest: "FindString cover_re cs = []"
    by simp
  show ?case
  proof (cases i)
    case 0
    with nomatch show ?thesis by simp
  next
    case (Suc j)
    with Cons.IH [OF rest, of j] show ?thesis by simp
  qed
qed

lemma no_match_prefix:
  assumes p: "CHR ''%'' \<notin> set p"
    and c: "\<not> is_digit c" "c \<noteq> CHR ''.''" "c \<noteq> CHR ''%''"
    and i: "i \<le> length p"
  shows "rmatch cover_re (drop i (p @ c # t)) = []"
proof (rule ccontr)
  assume "rmatch cover_re (drop i (p @ c # t)) \<noteq> []"
  then obtain m rest where mr: "drop i (p @ c # t) = m @ rest" and num: "cover_numeral m"
    by (auto dest: rmatch_cover_sound)
  from num have pc: "CHR ''%'' \<in> set m" and cm: "c \<notin> set m"
    using c by (auto dest: cover_numeral_chars)
  from i mr have eq: "drop i p @ c # t = m @ rest"
    by simp
  then obtain us where
    "(drop i p = m @ us \<and> us @ c # t = rest) \<or> (drop i p @ us = m \<and> c # t = us @ rest)"
    by (auto simp: append_eq_append_conv2)
  then have "set m \<subseteq> set (drop i p)"
  proof
    assume "drop i p = m @ us \<and> us @ c # t = rest"
    then show ?thesis by auto
  next
    assume h: "drop i p @ us = m \<and> c # t = us @ rest"
    show ?thesis
    proof (cases us)
      case Nil
      with h show ?thesis by auto
    next
      case (Cons u us')
      with h have "c \<in> set m" by auto
      with cm show ?thesis by simp
    qed
  qed
  with pc have "CHR ''%'' \<in> set p"
    by (auto dest: in_set_dropD)
  with p show False by simp
qed

lemma leftmost_by_matches:
  assumes "\<And>i. i < n \<Longrightarrow> rmatch cover_re (drop i s) = []"
  shows "\<forall>pre' m' post'. s = pre' @ m' @ post' \<and> cover_numeral m' \<longrightarrow> n \<le> length pre'"
proof (rule leftmostI)
  show "list_all (\<lambda>i. rmatch cover_re (drop i s) = []) [0..<n]"
    using assms by (simp add: list_all_iff)
qed

lemma Cover_FindString_numeral:
  assumes "sublist ''coverage:'' (Output e) \<and> suffix (''of statements'' @ [NL]) (Output e)"
    and "FindString cover_re (Output e) = ds @ [CHR ''.'', d, CHR ''%'']"
    and "ds \<noteq> []" "list_all is_digit ds" "is_digit d"
  shows "Cover e = (of_nat (digits_val ds) + of_nat (digit_val d) / 10, True)"
proof -
  have "Contains (Output e) ''coverage:'' \<and> HasSuffix (Output e) (''of statements'' @ [NL])"
    using assms(1) by (simp only: Cover_guard)
  then show ?thesis
    using assms(2-) by (simp add: Cover_def TrimRight_numeral ParseFloat_numeral)
qed

lemma Cover_found_iff:
  "snd (Cover e) \<longleftrightarrow>
     sublist ''coverage:'' (Output e) \<and> suffix (''of statements'' @ [NL]) (Output e) \<and>
     (\<exists>pre m post. Output e = pre @ m @ post \<and> cover_numeral m)"
proof (cases "sublist ''coverage:'' (Output e) \<and> suffix (''of statements'' @ [NL]) (Output e)")
  case False
  then show ?thesis
    by (auto simp: Cover_unguarded)
next
  case g: True
  show ?thesis
  proof (cases "\<exists>pre m post. Output e = pre @ m @ post \<and> cover_numeral m")
    case False
    then have "Cover e = (0, False)"
      by (rule Cover_no_numeral)
    with False show ?thesis by simp
  next
    case True
    then obtain pre m post where o: "Output e = pre @ m @ post" and m: "cover_numeral m"
      by blast
    have "FindString cover_re (Output e) \<noteq> []"
    proof
      assume "FindString cover_re (Output e) = []"
      then have "rmatch cover_re (drop (length pre) (Output e)) = []"
        by (rule FindString_empty_no_match)
      moreover have "rmatch cover_re (drop (length pre) (Output e)) = [post]"
        unfolding o using m by (simp add: rmatch_cover_numeral)
      ultimately show False by simp
    qed
    with FindString_shape [of "Output e"] have "cover_numeral (FindString cover_re (Output e))"
      by simp
    then obtain ds d where "FindString cover_re (Output e) = ds @ [CHR ''.'', d, CHR ''%'']"
      "ds \<noteq> []" "list_all is_digit ds" "is_digit d"
      unfolding cover_numeral_def by auto
    with g have "Cover e = (of_nat (digits_val ds) + of_nat (digit_val d) / 10, True)"
      by (rule Cover_FindString_numeral)
    with g True show ?thesis by simp
  qed
qed

lemma Cover_not_found: "\<not> snd (Cover e) \<Longrightarrow> Cover e = (0, False)"
proof (cases "sublist ''coverage:'' (Output e) \<and> suffix (''of statements'' @ [NL]) (Output e)")
  case False
  then show ?thesis by (rule Cover_unguarded)
next
  case True
  assume "\<not> snd (Cover e)"
  with True have "\<not> (\<exists>pre m post. Output e = pre @ m @ post \<and> cover_numeral m)"
    by (simp add: Cover_found_iff)
  then show ?thesis by (rule Cover_no_numeral)
qed

lemma Cover_line:
  fixes e :: "'t Event"
  assumes p: "CHR ''%'' \<notin> set p"
    and ds: "ds \<noteq> []" "length ds \<le> 3" "list_all is_digit ds" and d: "is_digit d"
  shows "Cover (e\<lparr>Output := p @ ''coverage: '' @ ds @ ''.'' @ [d] @ ''% of statements'' @ [NL]\<rparr>) =
    (of_nat (digits_val ds) + of_nat (digit_val d) / 10, True)"
proof -
  let ?s = "p @ ''coverage: '' @ ds @ ''.'' @ [d] @ ''% of statements'' @ [NL]"
  let ?e = "e\<lparr>Output := ?s\<rparr>"
  have g: "sublist ''coverage:'' (Output ?e) \<and> suffix (''of statements'' @ [NL]) (Output ?e)"
  proof
    have "Output ?e = p @ ''coverage:'' @ ('' '' @ ds @ ''.'' @ [d] @ ''% of statements'' @ [NL])"
      by simp
    then show "sublist ''coverage:'' (Output ?e)"
      unfolding sublist_def by blast
    have "Output ?e = (p @ ''coverage: '' @ ds @ ''.'' @ [d] @ ''% '') @ (''of statements'' @ [NL])"
      by simp
    then show "suffix (''of statements'' @ [NL]) (Output ?e)"
      unfolding suffix_def by blast
  qed
  have out: "Output ?e = (p @ ''coverage: '') @ (ds @ ''.'' @ [d] @ ''%'') @ ('' of statements'' @ [NL])"
    by simp
  have first: "\<forall>pre' m' post'. Output ?e = pre' @ m' @ post' \<and> cover_numeral m' \<longrightarrow>
      length (p @ ''coverage: '') \<le> length pre'"
  proof (rule leftmost_by_matches)
    fix i
    assume "i < length (p @ ''coverage: '')"
    then have i: "i \<le> length (p @ ''coverage:'')"
      by simp
    have "CHR ''%'' \<notin> set (p @ ''coverage:'')"
      using p by simp
    then have "rmatch cover_re (drop i ((p @ ''coverage:'') @ CHR '' '' #
        (ds @ ''.'' @ [d] @ ''% of statements'' @ [NL]))) = []"
      using _ _ _ i by (rule no_match_prefix) (simp_all add: is_digit_def)
    then show "rmatch cover_re (drop i (Output ?e)) = []"
      by simp
  qed
  from g out ds d first show ?thesis
    by (rule Cover_numeral)
qed

section \<open>Facts about the normalizer\<close>

lemma NestedTest_words:
  "NestedTest e \<longleftrightarrow>
     Test e \<noteq> '''' \<and> (prefix ''PASS'' (Output e) \<or> prefix ''FAIL'' (Output e))"
  by (simp add: NestedTest_def HasPrefix_prefix)

lemma ProcessNestedTest_triggered:
  assumes "NestedTest e"
  shows "ProcessNestedTest e =
     e\<lparr>Action := (if prefix ''PASS'' (Output e) then ActionPass else ActionFail),
       Test := (let ts = tokens (CHR '' '') (tabs_to_spaces (Output e))
                in if 2 < length ts then ts ! 2 else Test e)\<rparr>"
proof (cases "prefix ''PASS'' (Output e)")
  case True
  with assms show ?thesis
    by (simp add: ProcessNestedTest_def HasPrefix_prefix parts_spec Let_def)
next
  case False
  with assms have "prefix ''FAIL'' (Output e)"
    by (simp add: NestedTest_words)
  with assms False show ?thesis
    by (simp add: ProcessNestedTest_def HasPrefix_prefix parts_spec Let_def)
qed

lemma ProcessNestedTest_idle: "\<not> NestedTest e \<Longrightarrow> ProcessNestedTest e = e"
  by (simp add: ProcessNestedTest_def)

lemma tokens_double_space:
  assumes "CHR '' '' \<notin> set a" "CHR '' '' \<notin> set b"
  shows "tokens (CHR '' '') (a @ '' '' @ b @ ''  '' @ r) = a # b # [] # tokens (CHR '' '') r"
proof -
  have 1: "tokens (CHR '' '') (CHR '' '' # r) = [] # tokens (CHR '' '') r"
    by simp
  have 2: "tokens (CHR '' '') (b @ CHR '' '' # (CHR '' '' # r)) =
      b # tokens (CHR '' '') (CHR '' '' # r)"
    using assms(2) by (rule tokens_first)
  have 3: "tokens (CHR '' '') (a @ CHR '' '' # (b @ CHR '' '' # CHR '' '' # r)) =
      a # tokens (CHR '' '') (b @ CHR '' '' # CHR '' '' # r)"
    using assms(1) by (rule tokens_first)
  from 1 2 3 show ?thesis
    by simp
qed

lemma update_loop_words:
  "update_loop out updates \<longleftrightarrow>
     prefix ''=== RUN   '' out \<or> prefix ''=== PAUSE '' out \<or> prefix ''=== CONT  '' out"
  by (simp add: updates_def HasPrefix_prefix)

section \<open>The claims about the normalizer\<close>

text \<open>
  Claim C2. Applying \<open>ProcessNestedTest\<close> twice gives the same event as applying it once,
  whatever the action, the test name and the output are: the output is never changed, so
  the second run either finds the trigger gone (the new test name is empty) or computes
  the same action and the same name again.
\<close>

theorem ProcessNestedTest_idempotent:
  "ProcessNestedTest (ProcessNestedTest e) = ProcessNestedTest e"
proof (cases "NestedTest e")
  case False
  then show ?thesis
    by (simp add: ProcessNestedTest_idle)
next
  case True
  define ts where "ts = tokens (CHR '' '') (tabs_to_spaces (Output e))"
  define a where "a = (if prefix ''PASS'' (Output e) then ActionPass else ActionFail)"
  define e' where "e' = ProcessNestedTest e"
  have e': "e' = e\<lparr>Action := a, Test := (if 2 < length ts then ts ! 2 else Test e)\<rparr>"
    unfolding e'_def ts_def a_def ProcessNestedTest_triggered [OF True] by (simp add: Let_def)
  have out: "Output e' = Output e"
    by (simp add: e')
  show ?thesis
  proof (cases "NestedTest e'")
    case False
    then show ?thesis
      unfolding e'_def by (simp add: ProcessNestedTest_idle)
  next
    case nested: True
    have "ProcessNestedTest e' =
        e'\<lparr>Action := a, Test := (if 2 < length ts then ts ! 2 else Test e')\<rparr>"
      unfolding ProcessNestedTest_triggered [OF nested] out ts_def a_def
      by (simp add: Let_def)
    also have "\<dots> = e'"
      by (simp add: e')
    finally show ?thesis
      unfolding e'_def .
  qed
qed

text \<open>
  Claim C3. When the test name is not empty and the output starts with \<open>PASS\<close> or \<open>FAIL\<close>,
  \<open>ProcessNestedTest\<close> sets the action to \<open>pass\<close> or to \<open>fail\<close> accordingly and, with every tab
  of the output replaced by a space and the result cut at every space, sets the test name
  to the token at index 2 when there are more than two tokens and leaves it otherwise;
  nothing else changes. When the trigger is false the event is unchanged. The tokens are
  those of \<open>tokens\<close> and \<open>tabs_to_spaces\<close>, which follow the words of the specification and
  are shown equal to Go's \<open>Split\<close> and \<open>Replace\<close> in \<open>parts_spec\<close>.
\<close>

theorem ProcessNestedTest_spec:
  "(Test e \<noteq> '''' \<and> (prefix ''PASS'' (Output e) \<or> prefix ''FAIL'' (Output e)) \<longrightarrow>
      ProcessNestedTest e =
        e\<lparr>Action := (if prefix ''PASS'' (Output e) then ActionPass else ActionFail),
          Test := (let ts = tokens (CHR '' '') (tabs_to_spaces (Output e))
                   in if 2 < length ts then ts ! 2 else Test e)\<rparr>) \<and>
   (\<not> (Test e \<noteq> '''' \<and> (prefix ''PASS'' (Output e) \<or> prefix ''FAIL'' (Output e))) \<longrightarrow>
      ProcessNestedTest e = e)"
  unfolding NestedTest_words [symmetric]
  using ProcessNestedTest_triggered [of e] ProcessNestedTest_idle [of e]
  by blast

text \<open>
  The witness is the scenario of the specification: the output
  \<open>PASS: sub_test.go:10: Suite.TestBar<TAB>0.001s<NL>\<close> of the test \<open>TestFoo\<close> becomes a \<open>pass\<close> of
  \<open>Suite.TestBar\<close>; and an event without a test name is left alone.
\<close>

theorem ProcessNestedTest_spec_witness:
  "Test \<lparr>Action = ActionOutput,
         Output = ''PASS: sub_test.go:10: Suite.TestBar'' @ [TAB] @ ''0.001s'' @ [NL],
         Time = (), Package = ''p'', Test = ''TestFoo'', Elapsed = 0\<rparr> \<noteq> '''' \<and>
   prefix ''PASS'' (''PASS: sub_test.go:10: Suite.TestBar'' @ [TAB] @ ''0.001s'' @ [NL]) \<and>
   ProcessNestedTest
     \<lparr>Action = ActionOutput,
      Output = ''PASS: sub_test.go:10: Suite.TestBar'' @ [TAB] @ ''0.001s'' @ [NL],
      Time = (), Package = ''p'', Test = ''TestFoo'', Elapsed = 0\<rparr> =
     \<lparr>Action = ''pass'',
      Output = ''PASS: sub_test.go:10: Suite.TestBar'' @ [TAB] @ ''0.001s'' @ [NL],
      Time = (), Package = ''p'', Test = ''Suite.TestBar'', Elapsed = 0\<rparr> \<and>
   \<not> (Test \<lparr>Action = ActionOutput, Output = ''ok'' @ [NL],
         Time = (), Package = ''p'', Test = '''', Elapsed = 0\<rparr> \<noteq> '''') \<and>
   ProcessNestedTest
     \<lparr>Action = ActionOutput, Output = ''ok'' @ [NL],
         Time = (), Package = ''p'', Test = '''', Elapsed = 0\<rparr> =
     \<lparr>Action = ActionOutput, Output = ''ok'' @ [NL],
         Time = (), Package = ''p'', Test = '''', Elapsed = 0\<rparr>"
  using ProcessNestedTest_spec [of "\<lparr>Action = ActionOutput,
      Output = ''PASS: sub_test.go:10: Suite.TestBar'' @ [TAB] @ ''0.001s'' @ [NL],
      Time = (), Package = ''p'', Test = ''TestFoo'', Elapsed = 0\<rparr>"]
    ProcessNestedTest_spec [of "\<lparr>Action = ActionOutput, Output = ''ok'' @ [NL],
         Time = (), Package = ''p'', Test = '''', Elapsed = 0\<rparr>"]
  by (simp add: tabs_to_spaces_def ActionPass_def)

text \<open>
  Claim C9. \<open>ProcessNestedTest\<close> leaves the output, the package, the time and the elapsed
  seconds of every event as they were: only the action and the test name can change.
\<close>

theorem ProcessNestedTest_frame:
  "Output (ProcessNestedTest e) = Output e \<and>
   Package (ProcessNestedTest e) = Package e \<and>
   Time (ProcessNestedTest e) = Time e \<and>
   Elapsed (ProcessNestedTest e) = Elapsed e"
proof (cases "NestedTest e")
  case True
  show ?thesis
    unfolding ProcessNestedTest_triggered [OF True] by simp
next
  case False
  then show ?thesis
    by (simp add: ProcessNestedTest_idle)
qed

text \<open>
  Claim C10. There is an event that satisfies the trigger (a test name, an output that
  starts with \<open>PASS\<close> or \<open>FAIL\<close>) and that \<open>ProcessNestedTest\<close> leaves with an empty test name.
  It happens whenever the output, tabs read as spaces, has its second separator followed
  at once by a third: the token at index 2 is then empty. The normalized event has no test
  name, so the predicates that ask for one (\<open>NestedTest\<close>, \<open>NoTestsWarn\<close>) are false of it.
\<close>

theorem nested_test_empty_name:
  "(\<exists>e :: 't Event. NestedTest e \<and> Test (ProcessNestedTest e) = '''') \<and>
   (\<forall>(e :: 't Event) a b r.
      Test e \<noteq> '''' \<and> (prefix ''PASS'' (Output e) \<or> prefix ''FAIL'' (Output e)) \<and>
      tabs_to_spaces (Output e) = a @ '' '' @ b @ ''  '' @ r \<and>
      CHR '' '' \<notin> set a \<and> CHR '' '' \<notin> set b \<longrightarrow>
        Test (ProcessNestedTest e) = '''' \<and>
        \<not> NestedTest (ProcessNestedTest e) \<and>
        \<not> NoTestsWarn (ProcessNestedTest e))"
proof (intro conjI allI impI)
  fix e :: "'t Event" and a b r
  assume h: "Test e \<noteq> '''' \<and> (prefix ''PASS'' (Output e) \<or> prefix ''FAIL'' (Output e)) \<and>
      tabs_to_spaces (Output e) = a @ '' '' @ b @ ''  '' @ r \<and>
      CHR '' '' \<notin> set a \<and> CHR '' '' \<notin> set b"
  then have n: "NestedTest e"
    by (simp add: NestedTest_words)
  from h have ab: "CHR '' '' \<notin> set a" "CHR '' '' \<notin> set b"
    by simp_all
  from h have "tabs_to_spaces (Output e) = a @ '' '' @ b @ ''  '' @ r"
    by blast
  then have "tokens (CHR '' '') (tabs_to_spaces (Output e)) = a # b # [] # tokens (CHR '' '') r"
    using tokens_double_space [OF ab, of r] by simp
  then have t: "Test (ProcessNestedTest e) = ''''"
    unfolding ProcessNestedTest_triggered [OF n] by (simp add: Let_def)
  then show "Test (ProcessNestedTest e) = ''''" .
  from t show "\<not> NestedTest (ProcessNestedTest e)"
    by (simp add: NestedTest_def)
  from t show "\<not> NoTestsWarn (ProcessNestedTest e)"
    by (simp add: NoTestsWarn_def)
next
  define e :: "'t Event" where
    "e = \<lparr>Action = ActionOutput, Output = ''PASS a  b'' @ [NL], Time = undefined,
          Package = '''', Test = ''T'', Elapsed = 0\<rparr>"
  have n: "NestedTest e"
    by (simp add: e_def NestedTest_def HasPrefix_def)
  have "Test (ProcessNestedTest e) = ''''"
    unfolding ProcessNestedTest_triggered [OF n] by (simp add: e_def tabs_to_spaces_def)
  with n show "\<exists>e :: 't Event. NestedTest e \<and> Test (ProcessNestedTest e) = ''''"
    by blast
qed

text \<open>
  The witness is the event of the claim: test \<open>T\<close>, output \<open>PASS a  b<NL>\<close>, whose tokens are
  \<open>PASS\<close>, \<open>a\<close>, the empty string and \<open>b<NL>\<close>.
\<close>

theorem nested_test_empty_name_witness:
  "ProcessNestedTest
     \<lparr>Action = ActionOutput, Output = ''PASS a  b'' @ [NL], Time = (),
      Package = ''p'', Test = ''T'', Elapsed = 0\<rparr> =
     \<lparr>Action = ''pass'', Output = ''PASS a  b'' @ [NL], Time = (),
      Package = ''p'', Test = '''', Elapsed = 0\<rparr> \<and>
   Split (Replace (''PASS a  b'' @ [NL]) [TAB] '' '' (- 1)) '' '' =
     [''PASS'', ''a'', '''', ''b'' @ [NL]] \<and>
   \<not> NestedTest (ProcessNestedTest
     \<lparr>Action = ActionOutput, Output = ''PASS a  b'' @ [NL], Time = (),
      Package = ''p'', Test = ''T'', Elapsed = 0\<rparr>)"
proof -
  let ?e = "\<lparr>Action = ActionOutput, Output = ''PASS a  b'' @ [NL], Time = (),
      Package = ''p'', Test = ''T'', Elapsed = 0\<rparr>"
  have h: "Test ?e \<noteq> '''' \<and> (prefix ''PASS'' (Output ?e) \<or> prefix ''FAIL'' (Output ?e)) \<and>
      tabs_to_spaces (Output ?e) = ''PASS'' @ '' '' @ ''a'' @ ''  '' @ (''b'' @ [NL]) \<and>
      CHR '' '' \<notin> set ''PASS'' \<and> CHR '' '' \<notin> set ''a''"
    by (simp add: tabs_to_spaces_def)
  have t: "Test (ProcessNestedTest ?e) = '''' \<and> \<not> NestedTest (ProcessNestedTest ?e)"
    using nested_test_empty_name [where 't = unit] h by blast
  have tk: "Split (Replace (''PASS a  b'' @ [NL]) [TAB] '' '' (- 1)) '' '' =
      [''PASS'', ''a'', '''', ''b'' @ [NL]]"
    by (simp add: parts_spec tabs_to_spaces_def)
  have p: "ProcessNestedTest ?e = ?e\<lparr>Action := ''pass'', Test := Test (ProcessNestedTest ?e)\<rparr>"
    by (simp add: ProcessNestedTest_def NestedTest_def HasPrefix_def parts_spec
        tabs_to_spaces_def Let_def ActionPass_def)
  from t tk p show ?thesis by simp
qed

section \<open>The claims about the classifier predicates\<close>

text \<open>
  Claim C4. On the event of a package without test files (action \<open>output\<close>, no test name,
  package \<open>p\<close>, output \<open>?   <TAB>p<TAB>[no test files]<NL>\<close>), \<open>NoTestFiles\<close> is true and \<open>Discard\<close>
  is true as well, whatever the time and the elapsed seconds are.
\<close>

theorem no_test_files_scenario:
  "NoTestFiles \<lparr>Action = ActionOutput,
       Output = ''?   '' @ [TAB] @ ''p'' @ [TAB] @ ''[no test files]'' @ [NL],
       Time = t, Package = ''p'', Test = '''', Elapsed = el\<rparr> \<and>
   Discard \<lparr>Action = ActionOutput,
       Output = ''?   '' @ [TAB] @ ''p'' @ [TAB] @ ''[no test files]'' @ [NL],
       Time = t, Package = ''p'', Test = '''', Elapsed = el\<rparr>"
  by (simp add: NoTestFiles_def Discard_def HasPrefix_def HasSuffix_def updates_def)

text \<open>
  Claim C5. \<open>Discard\<close> is true exactly when the output begins with one of the three markers
  \<open>=== RUN   \<close>, \<open>=== PAUSE \<close>, \<open>=== CONT  \<close> (whatever the test name and the action are), or
  the action is \<open>output\<close> and the test name is empty. Each marker has ten characters.
\<close>

theorem Discard_iff:
  "(Discard e \<longleftrightarrow>
      prefix ''=== RUN   '' (Output e) \<or> prefix ''=== PAUSE '' (Output e) \<or>
      prefix ''=== CONT  '' (Output e) \<or> (Action e = ''output'' \<and> Test e = '''')) \<and>
   updates = [''=== RUN   '', ''=== PAUSE '', ''=== CONT  ''] \<and>
   map length updates = [10, 10, 10]"
  by (simp add: Discard_def update_loop_words ActionOutput_def) (simp add: updates_def)

text \<open>
  Claim C7. \<open>IsPanic\<close> is true exactly when the output starts with \<open>panic: \<close>, or contains
  \<open>runtime error:\<close> and does not contain \<open>as expected\<close>. It is true of
  \<open>panic: runtime error: index out of range\<close> and false of the line of Go's time tests that
  reports an expected panic.
\<close>

theorem IsPanic_iff:
  "(IsPanic e \<longleftrightarrow>
      prefix ''panic: '' (Output e) \<or>
      ((\<exists>a b. Output e = a @ ''runtime error:'' @ b) \<and>
       \<not> (\<exists>a b. Output e = a @ ''as expected'' @ b))) \<and>
   IsPanic (e\<lparr>Output := ''panic: runtime error: index out of range''\<rparr>) \<and>
   \<not> IsPanic (e\<lparr>Output := ''time_test.go:1: panic in goroutine 7, as expected, with '' @
        [DQ] @ ''runtime error: racy use of timers'' @ [DQ]\<rparr>)"
proof (intro conjI)
  show "IsPanic e \<longleftrightarrow>
      prefix ''panic: '' (Output e) \<or>
      ((\<exists>a b. Output e = a @ ''runtime error:'' @ b) \<and>
       \<not> (\<exists>a b. Output e = a @ ''as expected'' @ b))"
    unfolding IsPanic_def HasPrefix_prefix Contains_iff ..
  show "IsPanic (e\<lparr>Output := ''panic: runtime error: index out of range''\<rparr>)"
    by (simp add: IsPanic_def HasPrefix_def)
  show "\<not> IsPanic (e\<lparr>Output := ''time_test.go:1: panic in goroutine 7, as expected, with '' @
        [DQ] @ ''runtime error: racy use of timers'' @ [DQ]\<rparr>)"
    by (simp add: IsPanic_def Contains_def HasPrefix_def)
qed

section \<open>The claim about coverage\<close>

text \<open>
  Claim C6. \<open>Cover\<close> returns a percentage with \<open>true\<close> exactly when the output contains
  \<open>coverage:\<close>, ends with \<open>of statements<NL>\<close> and contains a numeral of the pattern (one to
  three digits, a point, a digit, a percent sign); the percentage is then the decimal value
  of the leftmost numeral without its percent sign. In every other case it returns zero with
  \<open>false\<close>; it is a total function, so it never fails. A line that ends with
  \<open>coverage: 28.8% of statements<NL>\<close> and has no percent sign before that gives \<open>28.8\<close>, one
  with \<open>100.0%\<close> gives \<open>100.0\<close>, and \<open>no coverage info<NL>\<close> gives zero with \<open>false\<close>.
\<close>

theorem Cover_spec:
  fixes e :: "'t Event"
  shows
  "(snd (Cover e) \<longleftrightarrow>
      sublist ''coverage:'' (Output e) \<and> suffix (''of statements'' @ [NL]) (Output e) \<and>
      (\<exists>pre m post. Output e = pre @ m @ post \<and> cover_numeral m)) \<and>
   (\<not> snd (Cover e) \<longrightarrow> Cover e = (0, False)) \<and>
   (\<forall>pre ds d post.
      sublist ''coverage:'' (Output e) \<and> suffix (''of statements'' @ [NL]) (Output e) \<and>
      Output e = pre @ (ds @ ''.'' @ [d] @ ''%'') @ post \<and>
      ds \<noteq> [] \<and> length ds \<le> 3 \<and> list_all is_digit ds \<and> is_digit d \<and>
      (\<forall>pre' m' post'. Output e = pre' @ m' @ post' \<and> cover_numeral m' \<longrightarrow>
         length pre \<le> length pre') \<longrightarrow>
      Cover e = (of_nat (digits_val ds) + of_nat (digit_val d) / 10, True)) \<and>
   (\<forall>p. CHR ''%'' \<notin> set p \<longrightarrow>
      Cover (e\<lparr>Output := p @ ''coverage: 28.8% of statements'' @ [NL]\<rparr>) = (28.8, True)) \<and>
   (\<forall>p. CHR ''%'' \<notin> set p \<longrightarrow>
      Cover (e\<lparr>Output := p @ ''coverage: 100.0% of statements'' @ [NL]\<rparr>) = (100.0, True)) \<and>
   Cover (e\<lparr>Output := ''no coverage info'' @ [NL]\<rparr>) = (0, False)"
proof (intro conjI allI impI)
  show "snd (Cover e) \<longleftrightarrow>
      sublist ''coverage:'' (Output e) \<and> suffix (''of statements'' @ [NL]) (Output e) \<and>
      (\<exists>pre m post. Output e = pre @ m @ post \<and> cover_numeral m)"
    by (rule Cover_found_iff)
next
  assume "\<not> snd (Cover e)"
  then show "Cover e = (0, False)"
    by (rule Cover_not_found)
next
  fix pre ds d post
  assume h: "sublist ''coverage:'' (Output e) \<and> suffix (''of statements'' @ [NL]) (Output e) \<and>
      Output e = pre @ (ds @ ''.'' @ [d] @ ''%'') @ post \<and>
      ds \<noteq> [] \<and> length ds \<le> 3 \<and> list_all is_digit ds \<and> is_digit d \<and>
      (\<forall>pre' m' post'. Output e = pre' @ m' @ post' \<and> cover_numeral m' \<longrightarrow>
         length pre \<le> length pre')"
  show "Cover e = (of_nat (digits_val ds) + of_nat (digit_val d) / 10, True)"
  proof (rule Cover_numeral)
    show "sublist ''coverage:'' (Output e) \<and> suffix (''of statements'' @ [NL]) (Output e)"
      using h by blast
    show "Output e = pre @ (ds @ ''.'' @ [d] @ ''%'') @ post"
      using h by blast
    show "ds \<noteq> []" "length ds \<le> 3" "list_all is_digit ds" "is_digit d"
      using h by blast+
    show "\<forall>pre' m' post'. Output e = pre' @ m' @ post' \<and> cover_numeral m' \<longrightarrow>
        length pre \<le> length pre'"
      using h by blast
  qed
next
  fix p :: string
  assume p: "CHR ''%'' \<notin> set p"
  have "Cover (e\<lparr>Output := p @ ''coverage: '' @ ''28'' @ ''.'' @ [CHR ''8''] @ ''% of statements'' @ [NL]\<rparr>) =
      (of_nat (digits_val ''28'') + of_nat (digit_val (CHR ''8'')) / 10, True)"
    using p by (rule Cover_line) (simp_all add: is_digit_def)
  then show "Cover (e\<lparr>Output := p @ ''coverage: 28.8% of statements'' @ [NL]\<rparr>) = (28.8, True)"
    by (simp add: digits_val_def digit_val_def)
next
  fix p :: string
  assume p: "CHR ''%'' \<notin> set p"
  have "Cover (e\<lparr>Output := p @ ''coverage: '' @ ''100'' @ ''.'' @ [CHR ''0''] @ ''% of statements'' @ [NL]\<rparr>) =
      (of_nat (digits_val ''100'') + of_nat (digit_val (CHR ''0'')) / 10, True)"
    using p by (rule Cover_line) (simp_all add: is_digit_def)
  then show "Cover (e\<lparr>Output := p @ ''coverage: 100.0% of statements'' @ [NL]\<rparr>) = (100.0, True)"
    by (simp add: digits_val_def digit_val_def)
next
  show "Cover (e\<lparr>Output := ''no coverage info'' @ [NL]\<rparr>) = (0, False)"
    by (simp add: Cover_def Contains_def HasPrefix_def)
qed

text \<open>
  The witness is the line of a package run with coverage from the comment above \<open>Cover\<close>:
  its guard holds, its leftmost numeral is \<open>28.8%\<close> at position 26, and the third part of
  the theorem gives \<open>28.8\<close>.
\<close>

theorem Cover_spec_witness:
  "sublist ''coverage:'' (''ok  '' @ [TAB] @ ''pkg'' @ [TAB] @ ''0.027s'' @ [TAB] @
      ''coverage: 28.8% of statements'' @ [NL]) \<and>
   suffix (''of statements'' @ [NL]) (''ok  '' @ [TAB] @ ''pkg'' @ [TAB] @ ''0.027s'' @ [TAB] @
      ''coverage: 28.8% of statements'' @ [NL]) \<and>
   cover_numeral ''28.8%'' \<and>
   FindString cover_re (''ok  '' @ [TAB] @ ''pkg'' @ [TAB] @ ''0.027s'' @ [TAB] @
      ''coverage: 28.8% of statements'' @ [NL]) = ''28.8%'' \<and>
   Cover \<lparr>Action = ActionOutput,
     Output = ''ok  '' @ [TAB] @ ''pkg'' @ [TAB] @ ''0.027s'' @ [TAB] @
       ''coverage: 28.8% of statements'' @ [NL],
     Time = (), Package = ''pkg'', Test = '''', Elapsed = 0\<rparr> = (28.8, True)"
proof -
  let ?s = "''ok  '' @ [TAB] @ ''pkg'' @ [TAB] @ ''0.027s'' @ [TAB] @
      ''coverage: 28.8% of statements'' @ [NL]"
  let ?e = "\<lparr>Action = ActionOutput, Output = ?s, Time = (), Package = ''pkg'', Test = '''',
      Elapsed = 0\<rparr>"
  have g: "sublist ''coverage:'' ?s \<and> suffix (''of statements'' @ [NL]) ?s"
    unfolding Contains_sublist [symmetric] HasSuffix_suffix [symmetric]
    by (simp add: Contains_def HasPrefix_def HasSuffix_def)
  have num: "cover_numeral ''28.8%''"
    unfolding cover_numeral_def
    by (rule exI [of _ "''28''"], rule exI [of _ "CHR ''8''"]) (simp add: is_digit_def)
  have fs: "FindString cover_re ?s = ''28.8%''"
    by code_simp
  let ?pre = "''ok  '' @ [TAB] @ ''pkg'' @ [TAB] @ ''0.027s'' @ [TAB] @ ''coverage: ''"
  have len: "length ?pre = 26"
    by simp
  have "list_all (\<lambda>i. rmatch cover_re (drop i ?s) = []) [0..<26]"
    by code_simp
  then have "list_all (\<lambda>i. rmatch cover_re (drop i ?s) = []) [0..<length ?pre]"
    by (simp only: len)
  then have first: "\<forall>pre' m' post'. ?s = pre' @ m' @ post' \<and> cover_numeral m' \<longrightarrow>
      length ?pre \<le> length pre'"
    by (rule leftmostI)
  have "Cover ?e = (of_nat (digits_val ''28'') + of_nat (digit_val (CHR ''8'')) / 10, True)"
  proof (rule Cover_spec [of ?e, THEN conjunct2, THEN conjunct2, THEN conjunct1, rule_format,
        of "''ok  '' @ [TAB] @ ''pkg'' @ [TAB] @ ''0.027s'' @ [TAB] @ ''coverage: ''" "''28''"
          "CHR ''8''" "'' of statements'' @ [NL]"])
    show "sublist ''coverage:'' (Output ?e) \<and> suffix (''of statements'' @ [NL]) (Output ?e) \<and>
      Output ?e = (''ok  '' @ [TAB] @ ''pkg'' @ [TAB] @ ''0.027s'' @ [TAB] @ ''coverage: '') @
        (''28'' @ ''.'' @ [CHR ''8''] @ ''%'') @ ('' of statements'' @ [NL]) \<and>
      ''28'' \<noteq> [] \<and> length ''28'' \<le> 3 \<and> list_all is_digit ''28'' \<and> is_digit (CHR ''8'') \<and>
      (\<forall>pre' m' post'. Output ?e = pre' @ m' @ post' \<and> cover_numeral m' \<longrightarrow>
         length (''ok  '' @ [TAB] @ ''pkg'' @ [TAB] @ ''0.027s'' @ [TAB] @ ''coverage: '')
           \<le> length pre')"
      using g first by (simp add: is_digit_def)
  qed
  then have "Cover ?e = (28.8, True)"
    by (simp add: digits_val_def digit_val_def)
  with g num fs show ?thesis
    by simp
qed

section \<open>Facts about the decoder\<close>

lemmas char_eval = upper_def char_of_def bit_0 bit_Suc_0_iff

lemma floor_rat_numeral: "\<lfloor>numeral a / numeral b :: rat\<rfloor> = numeral a div numeral b"
  by (metis floor_divide_of_int_eq of_int_numeral)

lemma ceiling_rat_numeral: "\<lceil>numeral a / numeral b :: rat\<rceil> = - (- numeral a div numeral b)"
  using ceiling_divide_eq_div [of "numeral a" "numeral b", where ?'a = rat] by simp

lemmas round64_eval = round64_def binade_def bit_length.simps pow2_def round_even_def Let_def
  floor_rat_numeral ceiling_rat_numeral

text \<open>The doubles nearest one tenth, one thousandth and one half.\<close>

lemma round64_tenth: "round64 (1 / 10) = 3602879701896397 / 36028797018963968"
  by (simp add: round64_eval)


lemma round64_half: "round64 (1 / 2) = 1 / 2"
  by (simp add: round64_eval)

lemma bit_length_pos: "0 < n \<Longrightarrow> 0 < bit_length n"
proof (induction n rule: bit_length.induct)
  case (1 n)
  have "0 \<le> bit_length (n div 2)"
  proof (cases "n div 2 \<le> 0")
    case True
    then show ?thesis by (simp add: bit_length.simps [of "n div 2"])
  next
    case False
    with 1 show ?thesis by simp
  qed
  with 1(2) show ?case
    by (simp add: bit_length.simps [of n])
qed

lemma bit_length_bounds:
  "0 < n \<Longrightarrow> 2 ^ nat (bit_length n - 1) \<le> n \<and> n < 2 ^ nat (bit_length n)"
proof (induction n rule: bit_length.induct)
  case (1 n)
  from 1(2) have bl: "bit_length n = 1 + bit_length (n div 2)"
    by (simp add: bit_length.simps [of n])
  show ?case
  proof (cases "n div 2 \<le> 0")
    case True
    with 1(2) have "n = 1" by simp
    then show ?thesis
      by (simp add: bit_length.simps)
  next
    case False
    then have h: "0 < n div 2" by simp
    with 1 have ih: "2 ^ nat (bit_length (n div 2) - 1) \<le> n div 2"
      "n div 2 < 2 ^ nat (bit_length (n div 2))"
      by simp_all
    from h have k: "0 < bit_length (n div 2)"
      by (rule bit_length_pos)
    define k where "k = nat (bit_length (n div 2) - 1)"
    have k1: "nat (bit_length (n div 2)) = Suc k" "nat (bit_length n - 1) = Suc k"
      "nat (bit_length n) = Suc (Suc k)"
      using k bl by (simp_all add: k_def)
    from ih have "2 ^ k \<le> n div 2" "n div 2 < 2 ^ Suc k"
      by (simp_all add: k_def [symmetric] k1)
    moreover have "\<And>p :: int. p \<le> n div 2 \<Longrightarrow> n div 2 < 2 * p \<Longrightarrow> 2 * p \<le> n \<and> n < 2 * (2 * p)"
      by presburger
    ultimately have "2 ^ Suc k \<le> n \<and> n < 2 ^ Suc (Suc k)"
      by (simp only: power_Suc)
    then show ?thesis
      by (simp only: k1)
  qed
qed

lemma pow2_pos: "0 < pow2 e"
  by (simp add: pow2_def)

lemma pow2_Suc: "pow2 (e + 1) = 2 * pow2 e"
proof (cases "0 \<le> e")
  case True
  then show ?thesis
    by (simp add: pow2_def nat_add_distrib)
next
  case False
  then have "nat (- e) = Suc (nat (- (e + 1)))"
    by simp
  with False show ?thesis
    by (cases "e + 1 = 0") (simp_all add: pow2_def)
qed

lemma binade_bounds:
  assumes "q \<noteq> 0"
  shows "pow2 (binade q) \<le> \<bar>q\<bar> \<and> \<bar>q\<bar> < pow2 (binade q + 1)"
proof (cases "1 \<le> \<bar>q\<bar>")
  case True
  define m where "m = \<lfloor>\<bar>q\<bar>\<rfloor>"
  from True have m: "0 < m"
    by (simp add: m_def)
  have b: "binade q = bit_length m - 1"
    using True by (simp add: binade_def m_def)
  from bit_length_pos [OF m] have e: "0 \<le> bit_length m - 1"
    by simp
  from bit_length_bounds [OF m] have lo: "2 ^ nat (bit_length m - 1) \<le> m"
    and hi: "m + 1 \<le> 2 ^ nat (bit_length m)"
    by simp_all
  have "(of_int (2 ^ nat (bit_length m - 1)) :: rat) \<le> of_int m"
    using lo by (simp only: of_int_le_iff)
  also have "\<dots> \<le> \<bar>q\<bar>"
    by (simp add: m_def)
  finally have 1: "pow2 (binade q) \<le> \<bar>q\<bar>"
    using e by (simp add: b pow2_def)
  have "\<bar>q\<bar> < of_int (m + 1)"
    unfolding m_def by linarith
  also have "\<dots> \<le> (of_int (2 ^ nat (bit_length m)) :: rat)"
    using hi by (simp only: of_int_le_iff)
  finally have 2: "\<bar>q\<bar> < pow2 (binade q + 1)"
    using e bit_length_pos [OF m] by (simp add: b pow2_def)
  from 1 2 show ?thesis ..
next
  case False
  with assms have q: "0 < \<bar>q\<bar>" "\<bar>q\<bar> < 1"
    by simp_all
  define y where "y = 1 / \<bar>q\<bar>"
  from q have y: "1 < y"
    by (simp add: y_def)
  define c where "c = \<lceil>y\<rceil>"
  from y have c: "0 < c - 1"
    unfolding c_def by linarith
  define k where "k = bit_length (c - 1)"
  have b: "binade q = - k"
    using False by (simp add: binade_def k_def c_def y_def)
  from bit_length_pos [OF c] have kpos: "0 < k"
    by (simp add: k_def)
  from bit_length_bounds [OF c] have lo: "2 ^ nat (k - 1) \<le> c - 1" and hi: "c \<le> 2 ^ nat k"
    by (simp_all add: k_def)
  have "y \<le> of_int c"
    by (simp add: c_def)
  also have "\<dots> \<le> (of_int (2 ^ nat k) :: rat)"
    using hi by (simp only: of_int_le_iff)
  finally have "y \<le> 2 ^ nat k"
    by simp
  then have "1 / 2 ^ nat k \<le> \<bar>q\<bar>"
    using q by (simp add: y_def field_simps)
  then have 1: "pow2 (binade q) \<le> \<bar>q\<bar>"
    using kpos by (simp add: b pow2_def)
  have "(of_int (2 ^ nat (k - 1)) :: rat) \<le> of_int (c - 1)"
    using lo by (simp only: of_int_le_iff)
  also have "\<dots> < y"
    unfolding c_def by linarith
  finally have "2 ^ nat (k - 1) < y"
    by simp
  then have "\<bar>q\<bar> < 1 / 2 ^ nat (k - 1)"
    using q by (simp add: y_def field_simps)
  moreover have "pow2 (- k + 1) = 1 / 2 ^ nat (k - 1)"
    using kpos by (cases "k = 1") (simp_all add: pow2_def)
  ultimately have 2: "\<bar>q\<bar> < pow2 (binade q + 1)"
    by (simp add: b)
  from 1 2 show ?thesis ..
qed

lemma round_even_near: "\<bar>of_int (round_even x) - x\<bar> \<le> 1 / 2"
proof -
  have "of_int \<lfloor>x\<rfloor> \<le> x" "x < of_int \<lfloor>x\<rfloor> + 1"
    by linarith+
  then show ?thesis
    by (auto simp: round_even_def Let_def abs_le_iff)
qed

text \<open>
  \<open>round64 q\<close> is a multiple of the spacing of the doubles around \<open>q\<close> and lies within half
  a spacing of \<open>q\<close>: it is a double nearest \<open>q\<close>.
\<close>

lemma round64_grid:
  "\<exists>m. round64 q = of_int m * pow2 (max (binade q) (- 1022) - 52)"
proof (cases "q = 0")
  case True
  then have "round64 q = of_int 0 * pow2 (max (binade q) (- 1022) - 52)"
    by (simp add: round64_def)
  then show ?thesis ..
next
  case False
  define u where "u = pow2 (max (binade q) (- 1022) - 52)"
  have "round64 q = of_int (sgn \<lfloor>q\<rfloor> * 0 + (if 0 < q then 1 else - 1) * round_even (\<bar>q\<bar> / u)) * u"
    using False by (simp add: round64_def u_def Let_def sgn_if)
  then show ?thesis
    unfolding u_def ..
qed

lemma round64_near:
  "\<bar>round64 q - q\<bar> \<le> pow2 (max (binade q) (- 1022) - 52) / 2"
proof (cases "q = 0")
  case True
  then show ?thesis
    using pow2_pos [of "max (binade q) (- 1022) - 52"] by (simp add: round64_def)
next
  case False
  define u where "u = pow2 (max (binade q) (- 1022) - 52)"
  have u: "0 < u"
    by (simp add: u_def pow2_pos)
  define r where "r = round_even (\<bar>q\<bar> / u)"
  have "\<bar>of_int r - \<bar>q\<bar> / u\<bar> \<le> 1 / 2"
    unfolding r_def by (rule round_even_near)
  then have "\<bar>of_int r - \<bar>q\<bar> / u\<bar> * u \<le> 1 / 2 * u"
    using u by (simp only: mult_le_cancel_right_pos)
  moreover have "\<bar>of_int r - \<bar>q\<bar> / u\<bar> * u = \<bar>(of_int r - \<bar>q\<bar> / u) * u\<bar>"
    using u by (simp add: abs_mult)
  moreover have "(of_int r - \<bar>q\<bar> / u) * u = of_int r * u - \<bar>q\<bar>"
    using u by (simp add: left_diff_distrib)
  ultimately have near: "\<bar>of_int r * u - \<bar>q\<bar>\<bar> \<le> u / 2"
    by simp
  have "round64 q = sgn q * (of_int r * u)"
    using False by (simp add: round64_def u_def r_def Let_def)
  moreover have "q = sgn q * \<bar>q\<bar>"
    by (simp add: sgn_if)
  ultimately have "\<bar>round64 q - q\<bar> = \<bar>sgn q * (of_int r * u - \<bar>q\<bar>)\<bar>"
    by (metis right_diff_distrib)
  also have "\<dots> = \<bar>of_int r * u - \<bar>q\<bar>\<bar>"
    using False by (simp add: abs_mult sgn_if)
  finally show ?thesis
    using near by (simp add: u_def)
qed





text \<open>A field is absent from an object when no key of the object names it.\<close>

lemma named_empty_iff: "named f ms = [] \<longleftrightarrow> (\<forall>m\<in>set ms. key_field (fst m) \<noteq> Some f)"
  by (auto simp: named_def filter_empty_conv)





section \<open>The claims about the decoder\<close>




text \<open>
  Claim C8, as stated, fails in three ways, each by the design of Go's decoder. A field
  can be absent from a line by the case-sensitive names of the specification and still be
  set: the line \<open>{"Action":"pass","test":"T"}\<close> has no key \<open>Test\<close>, and the event has the
  test name \<open>T\<close>, not the empty string. A number is not kept exactly: \<open>{"Elapsed":0.1}\<close> gives
  the double nearest one tenth, which is not one tenth. A string is not kept exactly: the
  lone surrogate escape of \<^verbatim>\<open>{"Output":"\ud800"}\<close> becomes U+FFFD.
\<close>

theorem NewEvent_not_exact:
  "''Test'' \<notin> set (map fst [(''Action'', JString ''pass''), (''test'', JString ''T'')]) \<and>
   NewEvent (\<lambda>s. None) ()
     (Document (JObject [(''Action'', JString ''pass''), (''test'', JString ''T'')])) =
     Inr \<lparr>Action = ''pass'', Output = '''', Time = (), Package = '''', Test = ''T'',
          Elapsed = 0\<rparr> \<and>
   NewEvent (\<lambda>s. None) () (Document (JObject [(''Elapsed'', JNumber (1 / 10))])) =
     Inr \<lparr>Action = '''', Output = '''', Time = (), Package = '''', Test = '''',
          Elapsed = 3602879701896397 / 36028797018963968\<rparr> \<and>
   (3602879701896397 / 36028797018963968 :: rat) \<noteq> 1 / 10 \<and>
   NewEvent (\<lambda>s. None) () (Document (JObject [(''Output'', JString (BSL # ''ud800''))])) =
     Inr \<lparr>Action = '''', Output = [CHR 0xEF, CHR 0xBF, CHR 0xBD], Time = (), Package = '''',
          Test = '''', Elapsed = 0\<rparr>"
proof (intro conjI)
  show "''Test'' \<notin> set (map fst [(''Action'', JString ''pass''), (''test'', JString ''T'')])"
    by simp
  show "NewEvent (\<lambda>s. None) ()
     (Document (JObject [(''Action'', JString ''pass''), (''test'', JString ''T'')])) =
     Inr \<lparr>Action = ''pass'', Output = '''', Time = (), Package = '''', Test = ''T'',
          Elapsed = 0\<rparr>"
    by (simp add: NewEvent_def Unmarshal_def object_member_def store_text_def find_field_def
        fields_def char_eval)
  show "NewEvent (\<lambda>s. None) () (Document (JObject [(''Elapsed'', JNumber (1 / 10))])) =
     Inr \<lparr>Action = '''', Output = '''', Time = (), Package = '''', Test = '''',
          Elapsed = 3602879701896397 / 36028797018963968\<rparr>"
    by (simp add: NewEvent_def Unmarshal_def object_member_def store_float_def find_field_def
        fields_def round64_tenth)
  show "(3602879701896397 / 36028797018963968 :: rat) \<noteq> 1 / 10"
    by simp
  show "NewEvent (\<lambda>s. None) () (Document (JObject [(''Output'', JString (BSL # ''ud800''))])) =
     Inr \<lparr>Action = '''', Output = [CHR 0xEF, CHR 0xBF, CHR 0xBD], Time = (), Package = '''',
          Test = '''', Elapsed = 0\<rparr>"
    by (simp add: NewEvent_def Unmarshal_def object_member_def store_text_def find_field_def
        fields_def getu4_def hex_val_def RuneError_def)
qed



end
